theory Spec2Isabelle
  imports Complex_Main "HOL-Library.Word"
begin

unbundle bit_operations_syntax

section \<open>The Net game (net.c): data model\<close>

text \<open>
  Tiles and barriers are \<open>unsigned char\<close> in the source and are modelled as 8-bit words.
  Direction values are \<open>int\<close> in the source; they only ever hold \<open>R\<close>, \<open>U\<close>, \<open>L\<close>,
  \<open>D\<close>, 0 or the complement of a tile within the low nibble, so they are modelled as 8-bit
  words as well. Coordinates and sizes are \<open>int\<close> in the source; after the two assertions of
  \<open>new_game\<close> they are never negative and are modelled as \<open>nat\<close>. Integer overflow of
  \<open>width * height\<close> is not modelled: where it matters, a statement bounds the board by
  \<open>INT_MAX\<close>.
\<close>

type_synonym u8 = "8 word"

definition R :: u8 where "R = 0x01"
definition U :: u8 where "U = 0x02"
definition L :: u8 where "L = 0x04"
definition D :: u8 where "D = 0x08"
definition LOCKED :: u8 where "LOCKED = 0x10"

text \<open>Rotations: anticlockwise, clockwise, flip, general rotate.\<close>

definition A :: "u8 \<Rightarrow> u8" where
  "A x = push_bit 1 (x AND 0x07) OR drop_bit 3 (x AND 0x08)"

definition C :: "u8 \<Rightarrow> u8" where
  "C x = drop_bit 1 (x AND 0x0E) OR push_bit 3 (x AND 0x01)"

definition F :: "u8 \<Rightarrow> u8" where
  "F x = drop_bit 2 (x AND 0x0C) OR push_bit 2 (x AND 0x03)"

definition ROT :: "u8 \<Rightarrow> nat \<Rightarrow> u8" where
  "ROT x n = (if n AND 3 = 0 then x
              else if n AND 3 = 1 then A x
              else if n AND 3 = 2 then F x else C x)"

text \<open>X and Y displacements.\<close>

definition X :: "u8 \<Rightarrow> int" where
  "X x = (if x = R then 1 else if x = L then -1 else 0)"

definition Y :: "u8 \<Rightarrow> int" where
  "Y x = (if x = D then 1 else if x = U then -1 else 0)"

text \<open>Bit count.\<close>

definition COUNT :: "u8 \<Rightarrow> nat" where
  "COUNT x = unat (drop_bit 3 (x AND 0x08)) + unat (drop_bit 2 (x AND 0x04)) +
             unat (drop_bit 1 (x AND 0x02)) + unat (x AND 0x01)"

definition TILE_SIZE :: int where "TILE_SIZE = 32"
definition TILE_BORDER :: int where "TILE_BORDER = 1"
definition WINDOW_OFFSET :: int where "WINDOW_OFFSET = 16"

text \<open>
  The barrier probability is a \<open>float\<close> in the source. It is modelled as a rational number;
  the rounding of the single floating-point product in \<open>new_game\<close> is not modelled.
\<close>

record game_params =
  p_width :: int
  p_height :: int
  p_wrapping :: bool
  barrier_probability :: rat

record game_state =
  width :: nat
  height :: nat
  wrapping :: bool
  completed :: bool
  tiles :: "u8 list"
  barriers :: "u8 list"

text \<open>
  Failed assertions, accesses outside an allocated array and the use of a null pointer are
  results of the model.
\<close>

datatype error = AssertFailed | OutOfBounds | NullPointer

definition ebind :: "error + 'a \<Rightarrow> ('a \<Rightarrow> error + 'b) \<Rightarrow> error + 'b" where
  "ebind m f = (case m of Inl e \<Rightarrow> Inl e | Inr v \<Rightarrow> f v)"

text \<open>The macro \<open>OFFSET(x2,y2,x1,y1,dir,state)\<close>, returning the pair it assigns.\<close>

definition OFFSET :: "nat \<Rightarrow> nat \<Rightarrow> u8 \<Rightarrow> game_state \<Rightarrow> nat \<times> nat" where
  "OFFSET x1 y1 dir st =
     (nat ((int x1 + int (width st) + X dir) mod int (width st)),
      nat ((int y1 + int (height st) + Y dir) mod int (height st)))"

text \<open>The macro \<open>index(state, a, x, y)\<close> as a checked read and a checked write.\<close>

definition index_rd :: "game_state \<Rightarrow> u8 list \<Rightarrow> nat \<Rightarrow> nat \<Rightarrow> error + u8" where
  "index_rd st a x y =
     (if y * width st + x < length a then Inr (a ! (y * width st + x)) else Inl OutOfBounds)"

definition index_wr :: "game_state \<Rightarrow> u8 list \<Rightarrow> nat \<Rightarrow> nat \<Rightarrow> u8 \<Rightarrow> error + u8 list" where
  "index_wr st a x y v =
     (if y * width st + x < length a then Inr (a[y * width st + x := v]) else Inl OutOfBounds)"

definition tile :: "game_state \<Rightarrow> nat \<Rightarrow> nat \<Rightarrow> error + u8" where
  "tile st x y = index_rd st (tiles st) x y"

definition barrier :: "game_state \<Rightarrow> nat \<Rightarrow> nat \<Rightarrow> error + u8" where
  "barrier st x y = index_rd st (barriers st) x y"

definition set_tile :: "game_state \<Rightarrow> nat \<Rightarrow> nat \<Rightarrow> u8 \<Rightarrow> error + game_state" where
  "set_tile st x y v = ebind (index_wr st (tiles st) x y v) (\<lambda>a. Inr (st\<lparr>tiles := a\<rparr>))"

definition set_barrier :: "game_state \<Rightarrow> nat \<Rightarrow> nat \<Rightarrow> u8 \<Rightarrow> error + game_state" where
  "set_barrier st x y v = ebind (index_wr st (barriers st) x y v) (\<lambda>a. Inr (st\<lparr>barriers := a\<rparr>))"

text \<open>\<open>tile(state, x, y) |= v\<close> and \<open>barrier(state, x, y) |= v\<close>.\<close>

definition or_tile :: "game_state \<Rightarrow> nat \<Rightarrow> nat \<Rightarrow> u8 \<Rightarrow> error + game_state" where
  "or_tile st x y v = ebind (tile st x y) (\<lambda>t. set_tile st x y (t OR v))"

definition or_barrier :: "game_state \<Rightarrow> nat \<Rightarrow> nat \<Rightarrow> u8 \<Rightarrow> error + game_state" where
  "or_barrier st x y v = ebind (barrier st x y) (\<lambda>b. set_barrier st x y (b OR v))"

section \<open>The candidate set\<close>

type_synonym xyd = "nat \<times> nat \<times> u8"

definition xyd_cmp :: "xyd \<Rightarrow> xyd \<Rightarrow> int" where
  "xyd_cmp a b =
     (case a of (ax, ay, ad) \<Rightarrow> case b of (bx, by, bd) \<Rightarrow>
        if ax < bx then -1
        else if ax > bx then 1
        else if ay < by then -1
        else if ay > by then 1
        else if ad < bd then -1
        else if ad > bd then 1
        else 0)"

text \<open>
  Modelled from the spec: the ordered container of tree234.h, whose implementation is not
  part of the source. It is an ordered set of (x, y, direction) triples offering insertion
  of a key, lookup by key, deletion by key, deletion by index and a count. The model is the
  list of the entries in ascending order of \<open>xyd_cmp\<close>; inserting a key that is present
  leaves the set as it is, and deleting at an index outside the set returns nothing.
\<close>

type_synonym tree234 = "xyd list"

definition newtree234 :: tree234 where
  "newtree234 = []"

fun add234 :: "tree234 \<Rightarrow> xyd \<Rightarrow> tree234" where
  "add234 [] e = [e]"
| "add234 (a # t) e =
     (if xyd_cmp e a < 0 then e # a # t
      else if xyd_cmp e a = 0 then a # t
      else a # add234 t e)"

fun find234 :: "tree234 \<Rightarrow> xyd \<Rightarrow> xyd option" where
  "find234 [] e = None"
| "find234 (a # t) e = (if xyd_cmp e a = 0 then Some a else find234 t e)"

fun del234 :: "tree234 \<Rightarrow> xyd \<Rightarrow> tree234" where
  "del234 [] e = []"
| "del234 (a # t) e = (if xyd_cmp e a = 0 then t else a # del234 t e)"

definition delpos234 :: "tree234 \<Rightarrow> nat \<Rightarrow> (xyd \<times> tree234) option" where
  "delpos234 t i = (if i < length t then Some (t ! i, take i t @ drop (Suc i) t) else None)"

definition count234 :: "tree234 \<Rightarrow> nat" where
  "count234 t = length t"

text \<open>The loop \<open>for (d = 1; d < 0x10; d <<= 1)\<close> visits these values of \<open>d\<close> in this order.\<close>

definition dirs :: "u8 list" where
  "dirs = [1, 2, 4, 8]"

section \<open>Constructing a game: new_game\<close>

text \<open>
  Modelled from the spec: the random number generator of puzzles.h (\<open>random_init\<close>,
  \<open>random_upto\<close>) is not part of the source. The generator state is a type parameter
  \<open>'r\<close>; \<open>random_init\<close> maps the seed string to a state and \<open>random_upto\<close> maps a state and a
  limit to a draw and the next state. Both are parameters of every function that draws.
\<close>

subsection \<open>Border barriers\<close>

fun border_x_loop :: "nat list \<Rightarrow> game_state \<Rightarrow> error + game_state" where
  "border_x_loop [] st = Inr st"
| "border_x_loop (x # xs) st =
     ebind (or_barrier st x 0 U) (\<lambda>st1.
     ebind (or_barrier st1 x (height st1 - 1) D) (\<lambda>st2.
     border_x_loop xs st2))"

fun border_y_loop :: "nat list \<Rightarrow> game_state \<Rightarrow> error + game_state" where
  "border_y_loop [] st = Inr st"
| "border_y_loop (y # ys) st =
     ebind (or_barrier st y 0 L) (\<lambda>st1.
     ebind (or_barrier st1 y (width st1 - 1) R) (\<lambda>st2.
     border_y_loop ys st2))"

definition border_barriers :: "game_state \<Rightarrow> error + game_state" where
  "border_barriers st =
     (if \<not> wrapping st
      then ebind (border_x_loop [0..<width st] st) (\<lambda>st1. border_y_loop [0..<height st1] st1)
      else Inr st)"

subsection \<open>The unshuffled grid\<close>

text \<open>Removing a key if it is present: \<open>find234\<close> followed by \<open>del234\<close>.\<close>

definition remove_if_found :: "tree234 \<Rightarrow> xyd \<Rightarrow> tree234" where
  "remove_if_found t e = (case find234 t e of None \<Rightarrow> t | Some p \<Rightarrow> del234 t p)"

text \<open>The loop removing all other possibilities that point at the tile just moved into.\<close>

fun remove_pointing :: "game_state \<Rightarrow> nat \<Rightarrow> nat \<Rightarrow> u8 list \<Rightarrow> tree234 \<Rightarrow> tree234" where
  "remove_pointing st x2 y2 [] poss = poss"
| "remove_pointing st x2 y2 (d # ds) poss =
     (case OFFSET x2 y2 d st of (x3, y3) \<Rightarrow>
        remove_pointing st x2 y2 ds (remove_if_found poss (x3, y3, F d)))"

text \<open>The loop adding the new possibilities for moving out of the tile just moved into.\<close>

fun add_frontier :: "game_state \<Rightarrow> nat \<Rightarrow> nat \<Rightarrow> u8 \<Rightarrow> u8 list \<Rightarrow> tree234 \<Rightarrow> error + tree234" where
  "add_frontier st x2 y2 d2 [] poss = Inr poss"
| "add_frontier st x2 y2 d2 (d # ds) poss =
     (if d = d2 then add_frontier st x2 y2 d2 ds poss
      else if \<not> wrapping st \<and>
              (d = U \<and> y2 = 0 \<or> d = D \<and> y2 = height st - 1 \<or>
               d = L \<and> x2 = 0 \<or> d = R \<and> x2 = width st - 1)
      then add_frontier st x2 y2 d2 ds poss
      else case OFFSET x2 y2 d st of (x3, y3) \<Rightarrow>
        ebind (tile st x3 y3) (\<lambda>t3.
          if t3 \<noteq> 0 then add_frontier st x2 y2 d2 ds poss
          else add_frontier st x2 y2 d2 ds (add234 poss (x2, y2, d))))"

text \<open>One iteration of \<open>while (count234(possibilities) > 0)\<close>.\<close>

definition grid_step ::
  "('r \<Rightarrow> nat \<Rightarrow> nat \<times> 'r) \<Rightarrow> game_state \<Rightarrow> tree234 \<Rightarrow> 'r \<Rightarrow>
     error + game_state \<times> tree234 \<times> 'r" where
  "grid_step random_upto st possibilities rs =
     (let (i, rs1) = random_upto rs (count234 possibilities) in
      (case delpos234 possibilities i of
         None \<Rightarrow> Inl NullPointer
       | Some (xyd, poss1) \<Rightarrow>
           (let (x1, y1, d1) = xyd; (x2, y2) = OFFSET x1 y1 d1 st; d2 = F d1 in
            ebind (or_tile st x1 y1 d1) (\<lambda>st1.
            ebind (tile st1 x2 y2) (\<lambda>t2.
            if t2 \<noteq> 0 then Inl AssertFailed else
            ebind (or_tile st1 x2 y2 d2) (\<lambda>st2.
            ebind (tile st2 x1 y1) (\<lambda>t1.
            let poss2 = (if COUNT t1 = 3 then remove_if_found poss1 (x1, y1, 0x0F XOR t1)
                         else poss1);
                poss3 = remove_pointing st2 x2 y2 dirs poss2
            in ebind (add_frontier st2 x2 y2 d2 dirs poss3) (\<lambda>poss4.
               Inr (st2, poss4, rs1)))))))))"

text \<open>The measure of the loop: the tiles still zero, then the entries whose direction flips to 0.\<close>

definition zeros :: "u8 list \<Rightarrow> nat" where
  "zeros a = length (filter (\<lambda>t. t = 0) a)"

definition flipless :: "tree234 \<Rightarrow> nat" where
  "flipless t = length (filter (\<lambda>e. F (snd (snd e)) = 0) t)"

lemma ebind_simps [simp]: "ebind (Inl e) f = Inl e" "ebind (Inr v) f = f v"
  by (simp_all add: ebind_def)

lemma ebind_Inr: "ebind m f = Inr r \<longleftrightarrow> (\<exists>v. m = Inr v \<and> f v = Inr r)"
  by (cases m) simp_all

lemma zeros_split:
  assumes "i < length a"
  shows "zeros a = zeros (take i a) + (if a ! i = 0 then 1 else 0) + zeros (drop (Suc i) a)"
proof -
  have "zeros a = zeros (take i a @ a ! i # drop (Suc i) a)"
    using assms by (simp add: id_take_nth_drop [symmetric])
  then show ?thesis by (simp add: zeros_def)
qed

lemma zeros_update:
  assumes "i < length a"
  shows "zeros (a[i := v]) = zeros (take i a) + (if v = 0 then 1 else 0) + zeros (drop (Suc i) a)"
  using assms by (simp add: upd_conv_take_nth_drop zeros_def)

lemma zeros_update_le: "zeros (a[i := a ! i OR v]) \<le> zeros a"
proof (cases "i < length a")
  case True
  then show ?thesis by (simp add: zeros_update zeros_split [OF True] or_eq_0_iff)
next
  case False then show ?thesis by (simp add: list_update_beyond)
qed

lemma zeros_update_less: "i < length a \<Longrightarrow> a ! i = 0 \<Longrightarrow> v \<noteq> 0 \<Longrightarrow> zeros (a[i := v]) < zeros a"
  by (simp add: zeros_update zeros_split [of i a])

lemma tile_Inr: "tile st x y = Inr t \<longleftrightarrow> y * width st + x < length (tiles st) \<and> t = tiles st ! (y * width st + x)"
  by (auto simp: tile_def index_rd_def)

lemma or_tile_Inr:
  "or_tile st x y v = Inr st' \<longleftrightarrow>
     y * width st + x < length (tiles st) \<and>
     st' = st\<lparr>tiles := (tiles st)[y * width st + x := tiles st ! (y * width st + x) OR v]\<rparr>"
  by (auto simp: or_tile_def set_tile_def index_wr_def ebind_Inr tile_Inr)

lemma grid_step_InrE:
  assumes "grid_step ru st poss rs = Inr (st', poss', rs')"
  obtains i x1 y1 d1 poss1 x2 y2 st1 t1 where
    "ru rs (count234 poss) = (i, rs')"
    "delpos234 poss i = Some ((x1, y1, d1), poss1)"
    "OFFSET x1 y1 d1 st = (x2, y2)"
    "or_tile st x1 y1 d1 = Inr st1"
    "tile st1 x2 y2 = Inr 0"
    "or_tile st1 x2 y2 (F d1) = Inr st'"
    "tile st' x1 y1 = Inr t1"
    "add_frontier st' x2 y2 (F d1) dirs
       (remove_pointing st' x2 y2 dirs
          (if COUNT t1 = 3 then remove_if_found poss1 (x1, y1, 0x0F XOR t1) else poss1)) = Inr poss'"
proof -
  obtain i rs1 where ru: "ru rs (count234 poss) = (i, rs1)" by (cases "ru rs (count234 poss)")
  from assms ru obtain xyd poss1 where dp: "delpos234 poss i = Some (xyd, poss1)"
    by (auto simp: grid_step_def split: option.splits)
  obtain x1 y1 d1 where xyd: "xyd = (x1, y1, d1)" by (cases xyd)
  obtain x2 y2 where off: "OFFSET x1 y1 d1 st = (x2, y2)" by (cases "OFFSET x1 y1 d1 st")
  from assms ru dp xyd off show thesis
    by (auto simp: grid_step_def Let_def ebind_Inr split: if_splits intro: that)
qed

lemma flipless_delpos:
  assumes "delpos234 t i = Some (e, t1)"
  shows "flipless t = flipless t1 + (if F (snd (snd e)) = 0 then 1 else 0)"
proof -
  from assms have i: "i < length t" and e: "e = t ! i" and t1: "t1 = take i t @ drop (Suc i) t"
    by (auto simp: delpos234_def split: if_splits)
  have "flipless t = flipless (take i t @ t ! i # drop (Suc i) t)"
    using i by (simp add: id_take_nth_drop [symmetric])
  then show ?thesis by (simp add: flipless_def e t1)
qed

lemma flipless_del234: "flipless (del234 t e) \<le> flipless t"
  by (induction t) (auto simp: flipless_def)

lemma flipless_remove_if_found: "flipless (remove_if_found t e) \<le> flipless t"
  by (simp add: remove_if_found_def flipless_del234 split: option.splits)

lemma flipless_remove_pointing: "flipless (remove_pointing st x y ds t) \<le> flipless t"
proof (induction ds arbitrary: t)
  case Nil then show ?case by simp
next
  case (Cons d ds)
  obtain x3 y3 where o: "OFFSET x y d st = (x3, y3)" by (cases "OFFSET x y d st")
  have "flipless (remove_pointing st x y ds (remove_if_found t (x3, y3, F d)))
          \<le> flipless (remove_if_found t (x3, y3, F d))" by (rule Cons.IH)
  also have "\<dots> \<le> flipless t" by (rule flipless_remove_if_found)
  finally show ?case using o by simp
qed

lemma flipless_add234: "F (snd (snd e)) \<noteq> 0 \<Longrightarrow> flipless (add234 t e) = flipless t"
  by (induction t) (auto simp: flipless_def)

lemma flipless_add_frontier:
  "add_frontier st x y d2 ds t = Inr t' \<Longrightarrow> \<forall>d \<in> set ds. F d \<noteq> 0 \<Longrightarrow> flipless t' \<le> flipless t"
proof (induction ds arbitrary: t)
  case Nil then show ?case by simp
next
  case (Cons d ds)
  then show ?case
    by (fastforce simp: ebind_Inr flipless_add234 split: if_splits prod.splits)
qed

lemma F_dirs: "\<forall>d \<in> set dirs. F d \<noteq> 0"
  by (simp add: dirs_def F_def)

lemma grid_step_measure:
  assumes "grid_step ru st poss rs = Inr (st', poss', rs')"
  shows "zeros (tiles st') < zeros (tiles st) \<or>
         zeros (tiles st') = zeros (tiles st) \<and> flipless poss' < flipless poss"
proof -
  from assms obtain i x1 y1 d1 poss1 x2 y2 st1 t1 where
    dp: "delpos234 poss i = Some ((x1, y1, d1), poss1)" and
    s1: "or_tile st x1 y1 d1 = Inr st1" and
    z: "tile st1 x2 y2 = Inr 0" and
    s2: "or_tile st1 x2 y2 (F d1) = Inr st'" and
    af: "add_frontier st' x2 y2 (F d1) dirs
       (remove_pointing st' x2 y2 dirs
          (if COUNT t1 = 3 then remove_if_found poss1 (x1, y1, 0x0F XOR t1) else poss1)) = Inr poss'"
    by (rule grid_step_InrE)
  from s1 have l1: "zeros (tiles st1) \<le> zeros (tiles st)"
    by (auto simp: or_tile_Inr zeros_update_le)
  from s2 have l2: "zeros (tiles st') \<le> zeros (tiles st1)"
    by (auto simp: or_tile_Inr zeros_update_le)
  show ?thesis
  proof (cases "F d1 = 0")
    case False
    with z s2 have "zeros (tiles st') < zeros (tiles st1)"
      by (auto simp: or_tile_Inr tile_Inr zeros_update_less)
    with l1 show ?thesis by simp
  next
    case True
    have "flipless poss' \<le> flipless (if COUNT t1 = 3 then remove_if_found poss1 (x1, y1, 0x0F XOR t1) else poss1)"
      using flipless_add_frontier [OF af F_dirs] flipless_remove_pointing le_trans by blast
    also have "\<dots> \<le> flipless poss1" by (simp add: flipless_remove_if_found)
    also have "\<dots> < flipless poss" using flipless_delpos [OF dp] True by simp
    finally show ?thesis using l1 l2 by auto
  qed
qed

text \<open>The loop \<open>while (count234(possibilities) > 0)\<close>.\<close>

function grid_loop ::
  "('r \<Rightarrow> nat \<Rightarrow> nat \<times> 'r) \<Rightarrow> game_state \<Rightarrow> tree234 \<Rightarrow> 'r \<Rightarrow> error + game_state \<times> 'r" where
  "grid_loop random_upto st possibilities rs =
     (if count234 possibilities > 0
      then (case grid_step random_upto st possibilities rs of
              Inl e \<Rightarrow> Inl e
            | Inr (st', poss', rs') \<Rightarrow> grid_loop random_upto st' poss' rs')
      else Inr (st, rs))"
  by pat_completeness auto
termination
proof (relation "measures [\<lambda>(ru, st, poss, rs). zeros (tiles st), \<lambda>(ru, st, poss, rs). flipless poss]")
  show "wf (measures [\<lambda>(ru, st, poss, rs). zeros (tiles st), \<lambda>(ru, st, poss, rs). flipless poss])" by simp
next
  fix random_upto :: "'r \<Rightarrow> nat \<Rightarrow> nat \<times> 'r" and st possibilities rs x2 x y xa ya
  assume "grid_step random_upto st possibilities rs = Inr x2" "(x, y) = x2" "(xa, ya) = y"
  then have "grid_step random_upto st possibilities rs = Inr (x, xa, ya)" by simp
  from grid_step_measure [OF this]
  show "((random_upto, x, xa, ya), random_upto, st, possibilities, rs)
       \<in> measures [\<lambda>(ru, st, poss, rs). zeros (tiles st), \<lambda>(ru, st, poss, rs). flipless poss]"
    by auto
qed

text \<open>
  The grid before shuffling: the four possibilities out of the centre, then the loop. The
  assertion after the loop holds by the loop condition.
\<close>

definition unshuffled_grid ::
  "('r \<Rightarrow> nat \<Rightarrow> nat \<times> 'r) \<Rightarrow> game_state \<Rightarrow> 'r \<Rightarrow> error + game_state \<times> 'r" where
  "unshuffled_grid random_upto st rs =
     (let w = width st; h = height st;
          p0 = newtree234;
          p1 = add234 p0 (w div 2, h div 2, R);
          p2 = add234 p1 (w div 2, h div 2, U);
          p3 = add234 p2 (w div 2, h div 2, L);
          p4 = add234 p3 (w div 2, h div 2, D)
      in grid_loop random_upto st p4 rs)"

subsection \<open>Barrier candidates, shuffle, barrier placement\<close>

text \<open>\<open>state->width - (!state->wrapping)\<close> and the same for the height.\<close>

definition inner_width :: "game_state \<Rightarrow> nat" where
  "inner_width st = width st - (if wrapping st then 0 else 1)"

definition inner_height :: "game_state \<Rightarrow> nat" where
  "inner_height st = height st - (if wrapping st then 0 else 1)"

fun candidates_x_loop :: "game_state \<Rightarrow> nat \<Rightarrow> nat list \<Rightarrow> tree234 \<Rightarrow> error + tree234" where
  "candidates_x_loop st y [] b = Inr b"
| "candidates_x_loop st y (x # xs) b =
     ebind (tile st x y) (\<lambda>t.
       let b1 = (if t AND R = 0 then add234 b (x, y, R) else b);
           b2 = (if t AND D = 0 then add234 b1 (x, y, D) else b1)
       in candidates_x_loop st y xs b2)"

fun candidates_y_loop :: "game_state \<Rightarrow> nat list \<Rightarrow> tree234 \<Rightarrow> error + tree234" where
  "candidates_y_loop st [] b = Inr b"
| "candidates_y_loop st (y # ys) b =
     ebind (candidates_x_loop st y [0..<inner_width st] b) (\<lambda>b1. candidates_y_loop st ys b1)"

definition barrier_candidates :: "game_state \<Rightarrow> error + tree234" where
  "barrier_candidates st = candidates_y_loop st [0..<inner_height st] newtree234"

fun shuffle_x_loop ::
  "('r \<Rightarrow> nat \<Rightarrow> nat \<times> 'r) \<Rightarrow> game_state \<Rightarrow> nat \<Rightarrow> nat list \<Rightarrow> 'r \<Rightarrow> error + game_state \<times> 'r" where
  "shuffle_x_loop random_upto st y [] rs = Inr (st, rs)"
| "shuffle_x_loop random_upto st y (x # xs) rs =
     ebind (tile st x y) (\<lambda>orig.
       let (rot, rs1) = random_upto rs 4 in
       ebind (set_tile st x y (ROT orig rot)) (\<lambda>st1.
       shuffle_x_loop random_upto st1 y xs rs1))"

fun shuffle_y_loop ::
  "('r \<Rightarrow> nat \<Rightarrow> nat \<times> 'r) \<Rightarrow> game_state \<Rightarrow> nat list \<Rightarrow> 'r \<Rightarrow> error + game_state \<times> 'r" where
  "shuffle_y_loop random_upto st [] rs = Inr (st, rs)"
| "shuffle_y_loop random_upto st (y # ys) rs =
     ebind (shuffle_x_loop random_upto st y [0..<inner_width st] rs) (\<lambda>r.
       shuffle_y_loop random_upto (fst r) ys (snd r))"

definition shuffle ::
  "('r \<Rightarrow> nat \<Rightarrow> nat \<times> 'r) \<Rightarrow> game_state \<Rightarrow> 'r \<Rightarrow> error + game_state \<times> 'r" where
  "shuffle random_upto st rs = shuffle_y_loop random_upto st [0..<inner_height st] rs"

text \<open>
  The loop \<open>while (nbarriers > 0)\<close>; the counter is not negative when the loop is entered.
  It returns the state, the candidates left over and the generator.
\<close>

fun barrier_loop ::
  "('r \<Rightarrow> nat \<Rightarrow> nat \<times> 'r) \<Rightarrow> nat \<Rightarrow> game_state \<Rightarrow> tree234 \<Rightarrow> 'r \<Rightarrow>
     error + game_state \<times> tree234 \<times> 'r" where
  "barrier_loop random_upto 0 st b rs = Inr (st, b, rs)"
| "barrier_loop random_upto (Suc n) st b rs =
     (let (i, rs1) = random_upto rs (count234 b) in
      (case delpos234 b i of
         None \<Rightarrow> Inl AssertFailed
       | Some (xyd, b1) \<Rightarrow>
           (let (x1, y1, d1) = xyd; (x2, y2) = OFFSET x1 y1 d1 st; d2 = F d1 in
            ebind (or_barrier st x1 y1 d1) (\<lambda>st1.
            ebind (or_barrier st1 x2 y2 d2) (\<lambda>st2.
            barrier_loop random_upto n st2 b1 rs1)))))"

text \<open>
  The conversion of the product to \<open>int\<close> truncates towards zero. It is applied to the
  exact product of the rational numbers; the source rounds the product to a \<open>float\<close>
  first, which can carry it across an integer (0.7f * 10 is 7 in the source and 6 here).
\<close>

definition float_to_int :: "rat \<Rightarrow> int" where
  "float_to_int q = (if q < 0 then - \<lfloor>- q\<rfloor> else \<lfloor>q\<rfloor>)"

text \<open>
  The blank game state: both arrays allocated and cleared. The number of cells is the
  product of two natural numbers here; the source multiplies two \<open>int\<close>s, which
  overflows above \<open>INT_MAX\<close>. Statements about the loops therefore bound the size of
  the board.
\<close>

definition blank_state :: "game_params \<Rightarrow> game_state" where
  "blank_state params =
     \<lparr>width = nat (p_width params), height = nat (p_height params),
      wrapping = p_wrapping params, completed = False,
      tiles = replicate (nat (p_width params) * nat (p_height params)) 0,
      barriers = replicate (nat (p_width params) * nat (p_height params)) 0\<rparr>"




definition new_game ::
  "(string \<Rightarrow> 'r) \<Rightarrow> ('r \<Rightarrow> nat \<Rightarrow> nat \<times> 'r) \<Rightarrow> game_params \<Rightarrow> string \<Rightarrow> error + game_state" where
  "new_game random_init random_upto params seed =
     (if \<not> p_width params > 2 then Inl AssertFailed
      else if \<not> p_height params > 2 then Inl AssertFailed
      else
        ebind (border_barriers (blank_state params)) (\<lambda>st1.
        ebind (unshuffled_grid random_upto st1 (random_init seed)) (\<lambda>g.
        ebind (barrier_candidates (fst g)) (\<lambda>cands.
        ebind (shuffle random_upto (fst g) (snd g)) (\<lambda>sh.
        let nbarriers = float_to_int (barrier_probability params * of_nat (count234 cands)) in
        if \<not> (nbarriers \<ge> 0 \<and> nbarriers \<le> int (count234 cands)) then Inl AssertFailed
        else ebind (barrier_loop random_upto (nat nbarriers) (fst sh) cands (snd sh)) (\<lambda>r.
             Inr (fst r)))))))"

definition dup_game :: "game_state \<Rightarrow> game_state" where
  "dup_game st =
     \<lparr>width = width st, height = height st, wrapping = wrapping st,
      completed = completed st, tiles = tiles st, barriers = barriers st\<rparr>"

section \<open>The active squares: compute_active\<close>

fun active_dirs ::
  "game_state \<Rightarrow> nat \<Rightarrow> nat \<Rightarrow> u8 list \<Rightarrow> u8 list \<Rightarrow> tree234 \<Rightarrow> error + u8 list \<times> tree234" where
  "active_dirs st x1 y1 [] active todo = Inr (active, todo)"
| "active_dirs st x1 y1 (d1 # ds) active todo =
     (let (x2, y2) = OFFSET x1 y1 d1 st; d2 = F d1 in
      ebind (tile st x1 y1) (\<lambda>t1.
      if t1 AND d1 = 0 then active_dirs st x1 y1 ds active todo else
      ebind (tile st x2 y2) (\<lambda>t2.
      if t2 AND d2 = 0 then active_dirs st x1 y1 ds active todo else
      ebind (barrier st x1 y1) (\<lambda>b1.
      if b1 AND d1 \<noteq> 0 then active_dirs st x1 y1 ds active todo else
      ebind (index_rd st active x2 y2) (\<lambda>a2.
      if a2 \<noteq> 0 then active_dirs st x1 y1 ds active todo else
      ebind (index_wr st active x2 y2 1) (\<lambda>active1.
      active_dirs st x1 y1 ds active1 (add234 todo (x2, y2, 0))))))))"

lemma length_add234: "length (add234 t e) \<le> Suc (length t)"
  by (induction t) auto

lemma active_dirs_measure:
  "active_dirs st x1 y1 ds active todo = Inr (active', todo') \<Longrightarrow>
     2 * zeros active' + length todo' \<le> 2 * zeros active + length todo"
proof (induction ds arbitrary: active todo)
  case Nil then show ?case by simp
next
  case (Cons d1 ds)
  obtain x2 y2 where o: "OFFSET x1 y1 d1 st = (x2, y2)" by (cases "OFFSET x1 y1 d1 st")
  from Cons.prems o consider
    (skip) "active_dirs st x1 y1 ds active todo = Inr (active', todo')"
  | (mark) "y2 * width st + x2 < length active" "active ! (y2 * width st + x2) = 0"
      "active_dirs st x1 y1 ds (active[y2 * width st + x2 := 1]) (add234 todo (x2, y2, 0)) = Inr (active', todo')"
    by (auto simp: ebind_Inr index_rd_def index_wr_def split: if_splits)
  then show ?case
  proof cases
    case skip then show ?thesis by (rule Cons.IH)
  next
    case mark
    have "zeros (active[y2 * width st + x2 := 1]) < zeros active"
      using mark(1,2) by (simp add: zeros_update_less)
    moreover have "length (add234 todo (x2, y2, 0)) \<le> Suc (length todo)" by (rule length_add234)
    ultimately show ?thesis using Cons.IH [OF mark(3)] by linarith
  qed
qed

text \<open>
  The loop \<open>while ((xyd = delpos234(todo, 0)) != NULL)\<close>. The assertion after it holds
  by the loop condition.
\<close>

function active_loop :: "game_state \<Rightarrow> u8 list \<Rightarrow> tree234 \<Rightarrow> error + u8 list" where
  "active_loop st active todo =
     (case delpos234 todo 0 of
        None \<Rightarrow> Inr active
      | Some (xyd, todo1) \<Rightarrow>
          (case active_dirs st (fst xyd) (fst (snd xyd)) dirs active todo1 of
             Inl e \<Rightarrow> Inl e
           | Inr (active', todo') \<Rightarrow> active_loop st active' todo'))"
  by pat_completeness auto
termination
proof (relation "measure (\<lambda>(st, active, todo). 2 * zeros active + length todo)")
  show "wf (measure (\<lambda>(st, active, todo). 2 * zeros active + length todo))" by simp
next
  fix st :: game_state and active todo x2 x y x2a xa ya
  assume a: "delpos234 todo 0 = Some x2" "(x, y) = x2"
    "active_dirs st (fst x) (fst (snd x)) dirs active y = Inr x2a" "(xa, ya) = x2a"
  then have "length y < length todo" by (auto simp: delpos234_def split: if_splits)
  moreover from a have "active_dirs st (fst x) (fst (snd x)) dirs active y = Inr (xa, ya)" by simp
  from active_dirs_measure [OF this] have "2 * zeros xa + length ya \<le> 2 * zeros active + length y" .
  ultimately show "((st, xa, ya), st, active, todo) \<in> measure (\<lambda>(st, active, todo). 2 * zeros active + length todo)"
    by simp
qed

definition compute_active :: "game_state \<Rightarrow> error + u8 list" where
  "compute_active st =
     (let active = replicate (width st * height st) 0;
          todo = add234 newtree234 (width st div 2, height st div 2, 0)
      in active_loop st active todo)"

section \<open>Processing a move: make_move\<close>

text \<open>
  Modelled from the spec: the button identifiers of puzzles.h are not part of the source;
  the three mouse buttons are the primary (left), auxiliary (middle) and secondary (right)
  button, and any other identifier is not a mouse button.
\<close>

datatype button = LEFT_BUTTON | MIDDLE_BUTTON | RIGHT_BUTTON | OTHER_BUTTON

text \<open>
  The completion check reads \<open>active\<close> at every index below \<open>width * height\<close>, which is the
  length \<open>compute_active\<close> allocates.
\<close>

definition all_active :: "game_state \<Rightarrow> u8 list \<Rightarrow> bool" where
  "all_active ret active =
     list_all (\<lambda>x1. list_all (\<lambda>y1. active ! (y1 * width ret + x1) \<noteq> 0) [0..<height ret])
       [0..<width ret]"

text \<open>
  \<open>make_move\<close> returns \<open>None\<close> for the null pointer (no new state); the state passed in
  is a value and is never changed. The divisions are on values that are not negative.
\<close>

definition make_move :: "game_state \<Rightarrow> int \<Rightarrow> int \<Rightarrow> button \<Rightarrow> error + game_state option" where
  "make_move st x0 y0 btn =
     (if btn \<noteq> LEFT_BUTTON \<and> btn \<noteq> MIDDLE_BUTTON \<and> btn \<noteq> RIGHT_BUTTON then Inr None
      else
        let x = x0 - WINDOW_OFFSET; y = y0 - WINDOW_OFFSET in
        if x < 0 \<or> y < 0 then Inr None
        else
          let tx = x div TILE_SIZE; ty = y div TILE_SIZE in
          if tx \<ge> int (width st) \<or> ty \<ge> int (height st) then Inr None
          else if tx mod TILE_SIZE \<ge> TILE_SIZE - TILE_BORDER \<or>
                  ty mod TILE_SIZE \<ge> TILE_SIZE - TILE_BORDER then Inr None
          else if btn = MIDDLE_BUTTON then
            ebind (tile (dup_game st) (nat tx) (nat ty)) (\<lambda>t.
            ebind (set_tile (dup_game st) (nat tx) (nat ty) (t XOR LOCKED)) (\<lambda>ret.
            Inr (Some ret)))
          else
            ebind (tile st (nat tx) (nat ty)) (\<lambda>t.
            if t AND LOCKED \<noteq> 0 then Inr None
            else
              ebind (tile (dup_game st) (nat tx) (nat ty)) (\<lambda>orig.
              ebind (set_tile (dup_game st) (nat tx) (nat ty)
                       (if btn = LEFT_BUTTON then A orig else C orig)) (\<lambda>ret.
              ebind (compute_active ret) (\<lambda>active.
              Inr (Some (if all_active ret active then ret\<lparr>completed := True\<rparr> else ret)))))))"

section \<open>Concrete runs\<close>

text \<open>
  A generator for concrete runs: it replays a fixed list of raw draws, each reduced modulo
  the limit, and draws 0 once the list is used up.
\<close>

definition replay_upto :: "nat list \<Rightarrow> nat \<Rightarrow> nat \<times> nat list" where
  "replay_upto rs limit = (case rs of [] \<Rightarrow> (0, []) | r # rs' \<Rightarrow> (r mod limit, rs'))"

definition params_3x3 :: "bool \<Rightarrow> game_params" where
  "params_3x3 wrap = \<lparr>p_width = 3, p_height = 3, p_wrapping = wrap, barrier_probability = 0\<rparr>"

definition params_4x3 :: game_params where
  "params_4x3 = \<lparr>p_width = 4, p_height = 3, p_wrapping = False, barrier_probability = 0\<rparr>"

text \<open>A solved 3 x 3 wrapping board, as \<open>new_game\<close> builds it when every draw is 0.\<close>

definition solved_3x3 :: game_state where
  "solved_3x3 = \<lparr>width = 3, height = 3, wrapping = True, completed = False,
                 tiles = [10, 11, 4, 3, 7, 4, 12, 8, 1],
                 barriers = [0, 0, 0, 0, 0, 0, 0, 0, 0]\<rparr>"

definition params_fifth :: game_params where
  "params_fifth = \<lparr>p_width = 3, p_height = 3, p_wrapping = True, barrier_probability = 1 / 5\<rparr>"

text \<open>The raw draws of a run that turns tiles and places barriers.\<close>

definition draws_a :: "nat list" where
  "draws_a = [0, 1, 2, 0, 1, 2, 0, 0, 1, 0, 3, 2, 0, 0, 1, 1, 2, 7, 3, 5, 1, 4]"

text \<open>The raw draws of a run that turns the centre tile once, and the state it returns.\<close>

definition draws_b :: "nat list" where
  "draws_b = [0, 0, 0, 0, 0, 0, 0, 0, 0, 0, 0, 0, 1]"

definition turned_3x3 :: game_state where
  "turned_3x3 = \<lparr>width = 3, height = 3, wrapping = True, completed = False,
                 tiles = [10, 11, 4, 3, 14, 4, 12, 8, 1],
                 barriers = [0, 0, 0, 0, 0, 0, 0, 0, 0]\<rparr>"

text \<open>The grid of the 3 x 3 board that does not wrap, before the shuffle, when every draw is 0.\<close>

definition unshuffled_3x3 :: game_state where
  "unshuffled_3x3 = \<lparr>width = 3, height = 3, wrapping = False, completed = False,
                     tiles = [9, 13, 4, 10, 3, 4, 3, 5, 4],
                     barriers = [6, 6, 6, 0, 0, 0, 9, 9, 9]\<rparr>"


section \<open>Properties of states\<close>

text \<open>Every barrier bit of the first array is a barrier bit of the second.\<close>

definition barriers_subset :: "u8 list \<Rightarrow> u8 list \<Rightarrow> bool" where
  "barriers_subset b1 b2 = list_all2 (\<lambda>v1 v2. v1 AND v2 = v1) b1 b2"

text \<open>A mask contains a direction.\<close>

definition has_dir :: "u8 \<Rightarrow> u8 \<Rightarrow> bool" where
  "has_dir t d = (t AND d \<noteq> 0)"

text \<open>The tile of a cell, the neighbour of a cell in a direction, the cells of the board.\<close>

definition tile_at :: "game_state \<Rightarrow> nat \<times> nat \<Rightarrow> u8" where
  "tile_at st c = tiles st ! (snd c * width st + fst c)"

definition neighbour :: "game_state \<Rightarrow> nat \<times> nat \<Rightarrow> u8 \<Rightarrow> nat \<times> nat" where
  "neighbour st c d = OFFSET (fst c) (snd c) d st"

definition on_board :: "game_state \<Rightarrow> nat \<times> nat \<Rightarrow> bool" where
  "on_board st c = (fst c < width st \<and> snd c < height st)"

text \<open>
  On a board that does not wrap, the step from a cell in a direction leaves the board; these
  are the four tests of \<open>new_game\<close> before it adds a possibility.
\<close>

definition off_board :: "game_state \<Rightarrow> nat \<times> nat \<Rightarrow> u8 \<Rightarrow> bool" where
  "off_board st c d =
     (\<not> wrapping st \<and>
      (d = U \<and> snd c = 0 \<or> d = D \<and> snd c = height st - 1 \<or>
       d = L \<and> fst c = 0 \<or> d = R \<and> fst c = width st - 1))"

text \<open>
  Connections are symmetric pairs: for two adjacent cells, the one contains the direction
  to the other if and only if the other contains the reflected direction.
\<close>

definition symmetric_at :: "game_state \<Rightarrow> nat \<times> nat \<Rightarrow> u8 \<Rightarrow> bool" where
  "symmetric_at st c d =
     (off_board st c d \<or>
      has_dir (tile_at st c) d = has_dir (tile_at st (neighbour st c d)) (F d))"

definition symmetric :: "game_state \<Rightarrow> bool" where
  "symmetric st =
     list_all (\<lambda>y. list_all (\<lambda>x. list_all (\<lambda>d. symmetric_at st (x, y) d) dirs)
       [0..<width st]) [0..<height st]"

text \<open>
  The cells reachable from the centre by the flood fill over symmetric connections that
  ignores barriers: a step from a cell to its neighbour in a direction is taken when the
  cell contains the direction and the neighbour contains the reflected direction.
\<close>

inductive reach :: "game_state \<Rightarrow> nat \<times> nat \<Rightarrow> bool" for st :: game_state where
  reach_centre: "reach st (width st div 2, height st div 2)"
| reach_step: "reach st c \<Longrightarrow> d \<in> set dirs \<Longrightarrow> has_dir (tile_at st c) d \<Longrightarrow>
     has_dir (tile_at st (neighbour st c d)) (F d) \<Longrightarrow> reach st (neighbour st c d)"

text \<open>The generator keeps its contract: a draw is below its limit.\<close>

definition draws_in_range :: "('r \<Rightarrow> nat \<Rightarrow> nat \<times> 'r) \<Rightarrow> bool" where
  "draws_in_range ru = (\<forall>rs n. 0 < n \<longrightarrow> fst (ru rs n) < n)"


text \<open>The largest \<open>int\<close>, of 32 bits.\<close>

definition INT_MAX :: nat where
  "INT_MAX = 2147483647"

section \<open>The invariant of the grid loop: definitions\<close>

text \<open>
  The definitions below serve the proofs about the loop of \<open>new_game\<close> that builds the
  unshuffled grid; none of them is part of the program.
\<close>

text \<open>The candidate set is kept in ascending order of \<open>xyd_cmp\<close>.\<close>

definition sorted234 :: "tree234 \<Rightarrow> bool" where
  "sorted234 t = sorted_wrt (\<lambda>a b. xyd_cmp a b < 0) t"

text \<open>The possibility that points at the cell \<open>c\<close> from its neighbour in direction \<open>d\<close>.\<close>

definition pointing :: "game_state \<Rightarrow> nat \<times> nat \<Rightarrow> u8 \<Rightarrow> xyd" where
  "pointing st c d = (fst (neighbour st c d), snd (neighbour st c d), F d)"

text \<open>
  The board is larger than 2 x 2 and the tiles array has one entry for each cell; the centre
  cell; the cells reached so far (the centre, and every cell with a connection); the index
  of a cell in the arrays.
\<close>

definition well_formed :: "game_state \<Rightarrow> bool" where
  "well_formed st = (2 < width st \<and> 2 < height st \<and> length (tiles st) = width st * height st)"

definition centre :: "game_state \<Rightarrow> nat \<times> nat" where
  "centre st = (width st div 2, height st div 2)"

definition reached :: "game_state \<Rightarrow> nat \<times> nat \<Rightarrow> bool" where
  "reached st c = (tile_at st c \<noteq> 0 \<or> c = centre st)"

definition cell_idx :: "game_state \<Rightarrow> nat \<times> nat \<Rightarrow> nat" where
  "cell_idx st c = snd c * width st + fst c"

text \<open>The state after connecting the cell \<open>c1\<close> in direction \<open>d1\<close> to its neighbour.\<close>

definition connect :: "game_state \<Rightarrow> nat \<times> nat \<Rightarrow> u8 \<Rightarrow> game_state" where
  "connect st c1 d1 =
     st\<lparr>tiles := (tiles st)[cell_idx st c1 := tile_at st c1 OR d1,
                             cell_idx st (neighbour st c1 d1) := F d1]\<rparr>"

text \<open>
  The parts of the invariant: tiles hold direction bits only; every possibility leads from
  a reached cell with at most two connections to an unreached cell of the board;
  connections come in symmetric pairs and never leave a board that does not wrap; no tile
  has four connections; every step from a reached cell to an unreached one is a
  possibility, unless the reached cell is a T-piece; before the first iteration all
  possibilities start at the centre; every reached cell is reachable by the flood fill.
\<close>

definition nibbles :: "game_state \<Rightarrow> bool" where
  "nibbles st = (\<forall>c. on_board st c \<longrightarrow> tile_at st c AND 0x0F = tile_at st c)"

definition poss_ok :: "game_state \<Rightarrow> tree234 \<Rightarrow> bool" where
  "poss_ok st poss =
     (sorted234 poss \<and>
      (\<forall>(x, y, d) \<in> set poss.
         on_board st (x, y) \<and> d \<in> set dirs \<and> \<not> off_board st (x, y) d \<and>
         reached st (x, y) \<and> \<not> reached st (neighbour st (x, y) d) \<and>
         COUNT (tile_at st (x, y)) \<le> 2))"

definition sym :: "game_state \<Rightarrow> bool" where
  "sym st =
     (\<forall>c d. on_board st c \<longrightarrow> d \<in> set dirs \<longrightarrow> has_dir (tile_at st c) d \<longrightarrow>
        \<not> off_board st c d \<and> has_dir (tile_at st (neighbour st c d)) (F d))"

definition counts :: "game_state \<Rightarrow> bool" where
  "counts st = (\<forall>c. on_board st c \<longrightarrow> COUNT (tile_at st c) \<le> 3)"

definition frontier :: "game_state \<Rightarrow> tree234 \<Rightarrow> bool" where
  "frontier st poss =
     (\<forall>c d. on_board st c \<longrightarrow> reached st c \<longrightarrow> d \<in> set dirs \<longrightarrow> \<not> off_board st c d \<longrightarrow>
        \<not> reached st (neighbour st c d) \<longrightarrow>
        (fst c, snd c, d) \<in> set poss \<or> COUNT (tile_at st c) = 3)"

definition centre_first :: "game_state \<Rightarrow> tree234 \<Rightarrow> bool" where
  "centre_first st poss =
     (tile_at st (centre st) = 0 \<longrightarrow> (\<forall>(x, y, d) \<in> set poss. (x, y) = centre st))"

definition connected :: "game_state \<Rightarrow> bool" where
  "connected st = (\<forall>c. on_board st c \<longrightarrow> reached st c \<longrightarrow> reach st c)"

definition grid_inv :: "game_state \<Rightarrow> tree234 \<Rightarrow> bool" where
  "grid_inv st poss =
     (well_formed st \<and> nibbles st \<and> poss_ok st poss \<and> sym st \<and> counts st \<and>
      frontier st poss \<and> centre_first st poss \<and> connected st)"

text \<open>The candidate set after taking the possibility \<open>(x1, y1, d1)\<close>.\<close>

definition moved :: "game_state \<Rightarrow> tree234 \<Rightarrow> nat \<Rightarrow> nat \<Rightarrow> u8 \<Rightarrow> tree234 \<Rightarrow> bool" where
  "moved st poss x1 y1 d1 poss' =
     (grid_inv st poss \<and> (x1, y1, d1) \<in> set poss \<and> sorted234 poss' \<and>
      set poss' =
       (set poss - {(x1, y1, d1)}
          - (if COUNT (tile_at (connect st (x1, y1) d1) (x1, y1)) = 3
             then {(x1, y1, 0x0F XOR tile_at (connect st (x1, y1) d1) (x1, y1))} else {})
          - pointing st (neighbour st (x1, y1) d1) ` set dirs)
       \<union> {(fst (neighbour st (x1, y1) d1), snd (neighbour st (x1, y1) d1), d) | d.
            d \<in> set dirs \<and> d \<noteq> F d1 \<and> \<not> off_board st (neighbour st (x1, y1) d1) d \<and>
            tile_at (connect st (x1, y1) d1) (neighbour st (neighbour st (x1, y1) d1) d) = 0})"

text \<open>
  Every reached cell has a rank below \<open>n\<close>, ranks of reached cells differ, and a cell is
  connected to at most one cell of lower rank (the cell it was reached from).
\<close>

definition ranked :: "game_state \<Rightarrow> (nat \<times> nat \<Rightarrow> nat) \<Rightarrow> nat \<Rightarrow> bool" where
  "ranked st rk n =
     ((\<forall>c. on_board st c \<longrightarrow> reached st c \<longrightarrow> rk c < n) \<and>
      (\<forall>c c'. on_board st c \<longrightarrow> on_board st c' \<longrightarrow> reached st c \<longrightarrow> reached st c' \<longrightarrow>
         rk c = rk c' \<longrightarrow> c = c') \<and>
      (\<forall>c d e. on_board st c \<longrightarrow> d \<in> set dirs \<longrightarrow> e \<in> set dirs \<longrightarrow>
         has_dir (tile_at st c) d \<longrightarrow> has_dir (tile_at st c) e \<longrightarrow>
         rk (neighbour st c d) < rk c \<longrightarrow> rk (neighbour st c e) < rk c \<longrightarrow> d = e))"

definition full_inv :: "game_state \<Rightarrow> tree234 \<Rightarrow> bool" where
  "full_inv st poss = (grid_inv st poss \<and> (\<exists>rk n. ranked st rk n))"

text \<open>The state the grid loop starts from: every tile is zero.\<close>

definition blank_tiles :: "game_state \<Rightarrow> bool" where
  "blank_tiles st = (well_formed st \<and> tiles st = replicate (width st * height st) 0)"

text \<open>The candidate set the loop starts from.\<close>

definition start_poss :: "game_state \<Rightarrow> tree234" where
  "start_poss st =
     add234 (add234 (add234 (add234 newtree234 (width st div 2, height st div 2, R))
       (width st div 2, height st div 2, U)) (width st div 2, height st div 2, L))
       (width st div 2, height st div 2, D)"

section \<open>Rotations\<close>

lemma nibble_cases:
  assumes "m AND 0x0F = (m :: u8)"
  shows "m \<in> {0, 1, 2, 3, 4, 5, 6, 7, 8, 9, 10, 11, 12, 13, 14, 15}"
proof -
  have "m AND 0x0F \<le> 0x0F" by (rule word_and_le1)
  then have "m \<le> 15" using assms by simp
  then have "unat m \<le> 15" by (simp add: word_le_nat_alt)
  then have "unat m \<in> {0, 1, 2, 3, 4, 5, 6, 7, 8, 9, 10, 11, 12, 13, 14, 15}"
    by (simp only: insert_iff empty_iff) arith
  then have "(of_nat (unat m) :: u8) \<in> of_nat ` {0, 1, 2, 3, 4, 5, 6, 7, 8, 9, 10, 11, 12, 13, 14, 15}"
    by (rule imageI)
  then show ?thesis by simp
qed

lemma A_four: "m AND 0x0F = m \<Longrightarrow> A (A (A (A m))) = m"
  by (drule nibble_cases) (auto simp: A_def)

lemma C_four: "m AND 0x0F = m \<Longrightarrow> C (C (C (C m))) = m"
  by (drule nibble_cases) (auto simp: C_def)

lemma C_A: "m AND 0x0F = m \<Longrightarrow> C (A m) = m"
  by (drule nibble_cases) (auto simp: A_def C_def)

lemma A_C: "m AND 0x0F = m \<Longrightarrow> A (C m) = m"
  by (drule nibble_cases) (auto simp: A_def C_def)

lemma unlocked_nibble:
  assumes "t AND 0x1F = (t :: u8)" "t AND LOCKED = 0"
  shows "t AND 0x0F = t"
proof -
  have "(0x1F :: u8) = 0x0F OR 0x10" by simp
  then have "t AND 0x1F = (t AND 0x0F) OR (t AND 0x10)"
    by (simp only: bit.conj_disj_distrib)
  with assms show ?thesis by (simp add: LOCKED_def)
qed

text \<open>What a successful rotation does to the state.\<close>

lemma make_move_rotate:
  assumes mm: "make_move st x y btn = Inr (Some st')"
    and btn: "btn = LEFT_BUTTON \<or> btn = RIGHT_BUTTON"
  shows "\<exists>i. i = nat ((y - 16) div 32) * width st + nat ((x - 16) div 32) \<and>
             i < length (tiles st) \<and> tiles st ! i AND LOCKED = 0 \<and>
             tiles st' = (tiles st)[i := (if btn = LEFT_BUTTON then A else C) (tiles st ! i)] \<and>
             width st' = width st"
proof -
  define tx where "tx = (x - WINDOW_OFFSET) div TILE_SIZE"
  define ty where "ty = (y - WINDOW_OFFSET) div TILE_SIZE"
  have b: "\<not> (btn \<noteq> LEFT_BUTTON \<and> btn \<noteq> MIDDLE_BUTTON \<and> btn \<noteq> RIGHT_BUTTON)" "btn \<noteq> MIDDLE_BUTTON"
    using btn by auto
  have g1: "\<not> (x - WINDOW_OFFSET < 0 \<or> y - WINDOW_OFFSET < 0)"
  proof
    assume "x - WINDOW_OFFSET < 0 \<or> y - WINDOW_OFFSET < 0"
    then have "make_move st x y btn = Inr None" by (simp add: make_move_def Let_def)
    with mm show False by simp
  qed
  have g2: "\<not> (tx \<ge> int (width st) \<or> ty \<ge> int (height st))"
  proof
    assume "tx \<ge> int (width st) \<or> ty \<ge> int (height st)"
    then have "make_move st x y btn = Inr None"
      unfolding tx_def ty_def by (simp add: make_move_def Let_def)
    with mm show False by simp
  qed
  have g3: "\<not> (tx mod TILE_SIZE \<ge> TILE_SIZE - TILE_BORDER \<or> ty mod TILE_SIZE \<ge> TILE_SIZE - TILE_BORDER)"
  proof
    assume "tx mod TILE_SIZE \<ge> TILE_SIZE - TILE_BORDER \<or> ty mod TILE_SIZE \<ge> TILE_SIZE - TILE_BORDER"
    then have "make_move st x y btn = Inr None"
      unfolding tx_def ty_def by (simp add: make_move_def Let_def)
    with mm show False by simp
  qed
  have eq: "make_move st x y btn =
            ebind (tile st (nat tx) (nat ty)) (\<lambda>t.
            if t AND LOCKED \<noteq> 0 then Inr None
            else
              ebind (tile (dup_game st) (nat tx) (nat ty)) (\<lambda>orig.
              ebind (set_tile (dup_game st) (nat tx) (nat ty)
                       (if btn = LEFT_BUTTON then A orig else C orig)) (\<lambda>ret.
              ebind (compute_active ret) (\<lambda>active.
              Inr (Some (if all_active ret active then ret\<lparr>completed := True\<rparr> else ret))))))"
    using g1 g2 g3 btn unfolding tx_def ty_def
    by (elim disjE) (simp_all add: make_move_def Let_def cong del: if_weak_cong)
  have dup: "dup_game st = st" by (simp add: dup_game_def)
  from mm [unfolded eq dup] obtain t where
    t: "tile st (nat tx) (nat ty) = Inr t" and
    r: "(if t AND LOCKED \<noteq> 0 then Inr None
         else ebind (tile st (nat tx) (nat ty)) (\<lambda>orig.
              ebind (set_tile st (nat tx) (nat ty) (if btn = LEFT_BUTTON then A orig else C orig)) (\<lambda>ret.
              ebind (compute_active ret) (\<lambda>active.
              Inr (Some (if all_active ret active then ret\<lparr>completed := True\<rparr> else ret)))))) = Inr (Some st')"
    unfolding ebind_Inr by blast
  from r have ul: "t AND LOCKED = 0" by (auto split: if_splits)
  from r ul t obtain ret active where
    s: "set_tile st (nat tx) (nat ty) (if btn = LEFT_BUTTON then A t else C t) = Inr ret" and
    c: "st' = (if all_active ret active then ret\<lparr>completed := True\<rparr> else ret)"
    by (auto simp: ebind_Inr)
  from t have i: "nat ty * width st + nat tx < length (tiles st)" "t = tiles st ! (nat ty * width st + nat tx)"
    by (simp_all add: tile_Inr)
  from s i have ret: "ret = st\<lparr>tiles := (tiles st)[nat ty * width st + nat tx := (if btn = LEFT_BUTTON then A t else C t)]\<rparr>"
    by (simp add: set_tile_def index_wr_def)
  have "tiles st' = tiles ret" "width st' = width ret" using c by (simp_all split: if_splits)
  with ret i ul show ?thesis
    by (simp add: tx_def ty_def WINDOW_OFFSET_def TILE_SIZE_def)
qed

lemma four_rotations:
  assumes btn: "btn = LEFT_BUTTON \<or> btn = RIGHT_BUTTON"
    and wf: "\<forall>t \<in> set (tiles s0). t AND 0x1F = t"
    and m1: "make_move s0 x y btn = Inr (Some s1)"
    and m2: "make_move s1 x y btn = Inr (Some s2)"
    and m3: "make_move s2 x y btn = Inr (Some s3)"
    and m4: "make_move s3 x y btn = Inr (Some s4)"
  shows "tiles s4 = tiles s0"
proof -
  define r where "r = (if btn = LEFT_BUTTON then A else C)"
  define i where "i = nat ((y - 16) div 32) * width s0 + nat ((x - 16) div 32)"
  from make_move_rotate [OF m1 btn] have
    1: "i < length (tiles s0)" "tiles s0 ! i AND LOCKED = 0"
       "tiles s1 = (tiles s0)[i := r (tiles s0 ! i)]" "width s1 = width s0"
    by (auto simp: r_def i_def)
  from make_move_rotate [OF m2 btn] 1 have
    2: "tiles s2 = (tiles s0)[i := r (r (tiles s0 ! i))]" "width s2 = width s0"
    by (auto simp: r_def i_def)
  from make_move_rotate [OF m3 btn] 1 2 have
    3: "tiles s3 = (tiles s0)[i := r (r (r (tiles s0 ! i)))]" "width s3 = width s0"
    by (auto simp: r_def i_def)
  from make_move_rotate [OF m4 btn] 1 3 have
    4: "tiles s4 = (tiles s0)[i := r (r (r (r (tiles s0 ! i))))]"
    by (auto simp: r_def i_def)
  have "tiles s0 ! i \<in> set (tiles s0)" using 1(1) by simp
  with wf have "tiles s0 ! i AND 0x1F = tiles s0 ! i" by blast
  then have "tiles s0 ! i AND 0x0F = tiles s0 ! i" using 1(2) by (rule unlocked_nibble)
  then have "r (r (r (r (tiles s0 ! i)))) = tiles s0 ! i"
    by (simp add: r_def A_four C_four)
  with 4 show ?thesis by simp
qed

text \<open>
  C9: For every 4-bit connection mask, four anticlockwise rotations and four clockwise
  rotations give the mask back, and an anticlockwise rotation and a clockwise rotation undo
  each other in either order. Consequently four successful rotations of the same tile with
  the same button in \<open>make_move\<close> restore the tiles, on a state whose tiles hold only a
  connection mask and the lock flag.
\<close>

theorem rotation_cyclic:
  "(m AND 0x0F = m \<longrightarrow>
      A (A (A (A m))) = m \<and> C (C (C (C m))) = m \<and> C (A m) = m \<and> A (C m) = m) \<and>
   ((btn = LEFT_BUTTON \<or> btn = RIGHT_BUTTON) \<and> (\<forall>t \<in> set (tiles s0). t AND 0x1F = t) \<and>
    make_move s0 x y btn = Inr (Some s1) \<and> make_move s1 x y btn = Inr (Some s2) \<and>
    make_move s2 x y btn = Inr (Some s3) \<and> make_move s3 x y btn = Inr (Some s4) \<longrightarrow>
      tiles s4 = tiles s0)"
  using A_four C_four C_A A_C four_rotations by blast

lemma solved_3x3_move1:
  "make_move solved_3x3 53 53 LEFT_BUTTON = Inr (Some (solved_3x3\<lparr>tiles := [10, 11, 4, 3, 14, 4, 12, 8, 1]\<rparr>))"
  by code_simp

lemma solved_3x3_move2:
  "make_move (solved_3x3\<lparr>tiles := [10, 11, 4, 3, 14, 4, 12, 8, 1]\<rparr>) 53 53 LEFT_BUTTON =
     Inr (Some (solved_3x3\<lparr>tiles := [10, 11, 4, 3, 13, 4, 12, 8, 1]\<rparr>))"
  by code_simp

lemma solved_3x3_move3:
  "make_move (solved_3x3\<lparr>tiles := [10, 11, 4, 3, 13, 4, 12, 8, 1]\<rparr>) 53 53 LEFT_BUTTON =
     Inr (Some (solved_3x3\<lparr>tiles := [10, 11, 4, 3, 11, 4, 12, 8, 1]\<rparr>))"
  by code_simp

lemma solved_3x3_move4:
  "make_move (solved_3x3\<lparr>tiles := [10, 11, 4, 3, 11, 4, 12, 8, 1]\<rparr>) 53 53 LEFT_BUTTON =
     Inr (Some (solved_3x3\<lparr>completed := True\<rparr>))"
  by code_simp

theorem rotation_cyclic_witness:
  "(5 :: u8) AND 0x0F = 5 \<and> A (A (A (A 5))) = 5 \<and> C (C (C (C 5))) = 5 \<and> C (A 5) = 5 \<and> A (C 5) = 5 \<and>
   make_move solved_3x3 53 53 LEFT_BUTTON = Inr (Some (solved_3x3\<lparr>tiles := [10, 11, 4, 3, 14, 4, 12, 8, 1]\<rparr>)) \<and>
   tiles (solved_3x3\<lparr>completed := True\<rparr>) = tiles solved_3x3"
proof -
  have m: "(5 :: u8) AND 0x0F = 5" by simp
  have wf: "\<forall>t \<in> set (tiles solved_3x3). t AND 0x1F = t" by (simp add: solved_3x3_def)
  from rotation_cyclic [of 5 LEFT_BUTTON solved_3x3 53 53
      "solved_3x3\<lparr>tiles := [10, 11, 4, 3, 14, 4, 12, 8, 1]\<rparr>"
      "solved_3x3\<lparr>tiles := [10, 11, 4, 3, 13, 4, 12, 8, 1]\<rparr>"
      "solved_3x3\<lparr>tiles := [10, 11, 4, 3, 11, 4, 12, 8, 1]\<rparr>"
      "solved_3x3\<lparr>completed := True\<rparr>"]
  show ?thesis
    using m wf solved_3x3_move1 solved_3x3_move2 solved_3x3_move3 solved_3x3_move4 by blast
qed

section \<open>Border barriers of a non-wrapping game\<close>

text \<open>
  C3: For a non-wrapping game the border initialisation is to set the U bit on the top row,
  the D bit on the bottom row, the L bit on the leftmost column and the R bit on the
  rightmost column, and nothing else. On the 3 x 3 board the code sets L on the whole top
  row and R on the whole bottom row instead: the left column cell (0,1) and the right column
  cell (2,1) get no barrier bit.
\<close>

theorem border_barriers_3x3:
  "border_barriers (blank_state (params_3x3 False)) =
     Inr \<lparr>width = 3, height = 3, wrapping = False, completed = False,
          tiles = [0, 0, 0, 0, 0, 0, 0, 0, 0],
          barriers = [6, 6, 6, 0, 0, 0, 9, 9, 9]\<rparr>"
  by code_simp

text \<open>
  C4: Every write of the border initialisation is to stay inside the barriers array. On the
  non-wrapping 4 x 3 board the write \<open>barrier(state, y, state->width-1) |= R\<close> addresses
  index 12 of an array of 12 cells, so the initialisation, and with it \<open>new_game\<close>, leaves
  the array.
\<close>

theorem border_barriers_4x3_out_of_bounds:
  "border_barriers (blank_state params_4x3) = Inl OutOfBounds \<and>
   new_game random_init random_upto params_4x3 seed = Inl OutOfBounds"
proof -
  have "border_barriers (blank_state params_4x3) = Inl OutOfBounds" by code_simp
  then show ?thesis by (simp add: new_game_def params_4x3_def)
qed

section \<open>Rejected moves\<close>

lemma make_move_outside:
  "x - WINDOW_OFFSET < 0 \<or> y - WINDOW_OFFSET < 0 \<or>
   (x - WINDOW_OFFSET) div TILE_SIZE \<ge> int (width st) \<or>
   (y - WINDOW_OFFSET) div TILE_SIZE \<ge> int (height st) \<Longrightarrow>
   make_move st x y btn = Inr None"
  by (auto simp: make_move_def Let_def)

text \<open>
  C7: A malformed move returns no new state: a click outside the board, a click on the
  border margin of a tile, or a rotation of a locked tile. The click at pixel (47, 21) is
  at offset 31 inside tile (0,0), on its border margin, and the code rotates the tile: the
  margin test reads the tile index where it should read the pixel offset.
\<close>

theorem make_move_border_margin_accepted:
  "(47 - WINDOW_OFFSET) mod TILE_SIZE \<ge> TILE_SIZE - TILE_BORDER \<and>
   make_move solved_3x3 47 21 LEFT_BUTTON =
     Inr (Some (solved_3x3\<lparr>tiles := [5, 11, 4, 3, 7, 4, 12, 8, 1]\<rparr>))"
  by code_simp

section \<open>The centre square in compute_active\<close>

text \<open>
  C10: The active map of \<open>compute_active\<close> marks the centre square. On the 3 x 3 board
  that \<open>new_game\<close> returns when every tile is turned once, the centre tile (1,1) points up,
  left and down, none of its three neighbours there points back, and the map returned marks
  no square, the centre included: the centre is put on the to-do list without being marked.
\<close>

theorem compute_active_centre_unmarked:
  "new_game (\<lambda>seed. [0, 0, 0, 0, 0, 0, 0, 0, 1, 1, 1, 1, 1, 1, 1, 1, 1]) replay_upto
     (params_3x3 True) ''123'' = Inr (solved_3x3\<lparr>tiles := [5, 7, 8, 6, 14, 8, 9, 1, 2]\<rparr>) \<and>
   compute_active (solved_3x3\<lparr>tiles := [5, 7, 8, 6, 14, 8, 9, 1, 2]\<rparr>) =
     Inr [0, 0, 0, 0, 0, 0, 0, 0, 0]"
  by code_simp

section \<open>Barrier placement\<close>

lemma or_barrier_Inr:
  "or_barrier st x y v = Inr st' \<longleftrightarrow>
     y * width st + x < length (barriers st) \<and>
     st' = st\<lparr>barriers := (barriers st)[y * width st + x := barriers st ! (y * width st + x) OR v]\<rparr>"
  by (auto simp: or_barrier_def barrier_def set_barrier_def index_rd_def index_wr_def ebind_Inr)

lemma barriers_subset_refl: "barriers_subset b b"
  by (simp add: barriers_subset_def list_all2_same)

lemma barriers_subset_trans:
  "barriers_subset b1 b2 \<Longrightarrow> barriers_subset b2 b3 \<Longrightarrow> barriers_subset b1 b3"
  unfolding barriers_subset_def
proof (erule list_all2_trans [rotated])
  fix v1 v2 v3 :: u8
  assume a: "v1 AND v2 = v1" "v2 AND v3 = v2"
  have "v1 AND v3 = (v1 AND v2) AND v3" using a by simp
  also have "\<dots> = v1 AND (v2 AND v3)" by (simp add: and.assoc)
  finally show "v1 AND v3 = v1" using a by simp
qed

lemma and_or_same: "(v :: u8) AND (v OR w) = v"
  by (rule bit_eqI) (auto simp: bit_and_iff bit_or_iff)

lemma barriers_subset_update: "barriers_subset b (b[i := b ! i OR v])"
proof (cases "i < length b")
  case True
  then show ?thesis
    unfolding barriers_subset_def list_all2_conv_all_nth
    by (simp add: nth_list_update and_or_same)
next
  case False
  then show ?thesis by (simp add: list_update_beyond barriers_subset_refl)
qed

lemma or_barrier_subset:
  "or_barrier st x y v = Inr st' \<Longrightarrow>
     barriers_subset (barriers st) (barriers st') \<and> tiles st' = tiles st \<and> width st' = width st"
  by (auto simp: or_barrier_Inr barriers_subset_update)

lemma barrier_loop_subset:
  "barrier_loop ru n st b rs = Inr (st', b', rs') \<Longrightarrow>
     barriers_subset (barriers st) (barriers st') \<and> tiles st' = tiles st"
proof (induction n arbitrary: st b rs)
  case 0
  then show ?case by (simp add: barriers_subset_refl)
next
  case (Suc n)
  obtain i rs1 where ru: "ru rs (count234 b) = (i, rs1)" by (cases "ru rs (count234 b)")
  from Suc.prems ru obtain xyd b1 where dp: "delpos234 b i = Some (xyd, b1)"
    by (auto split: option.splits)
  obtain x1 y1 d1 where xyd: "xyd = (x1, y1, d1)" by (cases xyd)
  obtain x2 y2 where off: "OFFSET x1 y1 d1 st = (x2, y2)" by (cases "OFFSET x1 y1 d1 st")
  from Suc.prems ru dp xyd off obtain st1 st2 where
    s1: "or_barrier st x1 y1 d1 = Inr st1" and
    s2: "or_barrier st1 x2 y2 (F d1) = Inr st2" and
    r: "barrier_loop ru n st2 b1 rs1 = Inr (st', b', rs')"
    by (auto simp: ebind_Inr)
  from or_barrier_subset [OF s1] or_barrier_subset [OF s2] Suc.IH [OF r]
  show ?case by (auto intro: barriers_subset_trans)
qed

lemma barrier_loop_add:
  "barrier_loop ru (n + k) st b rs =
     ebind (barrier_loop ru n st b rs) (\<lambda>r. barrier_loop ru k (fst r) (fst (snd r)) (snd (snd r)))"
proof (induction n arbitrary: st b rs)
  case 0
  then show ?case by simp
next
  case (Suc n)
  obtain i rs1 where ru: "ru rs (count234 b) = (i, rs1)" by (cases "ru rs (count234 b)")
  show ?case
  proof (cases "delpos234 b i")
    case None
    with ru show ?thesis by simp
  next
    case (Some a)
    obtain x1 y1 d1 b1 where a: "a = ((x1, y1, d1), b1)" by (cases a) auto
    obtain x2 y2 where off: "OFFSET x1 y1 d1 st = (x2, y2)" by (cases "OFFSET x1 y1 d1 st")
    show ?thesis
    proof (cases "or_barrier st x1 y1 d1")
      case (Inl e)
      with ru Some a off show ?thesis by simp
    next
      case (Inr st1)
      show ?thesis
      proof (cases "or_barrier st1 x2 y2 (F d1)")
        case (Inl e)
        with ru Some a off Inr show ?thesis by simp
      next
        case st2: (Inr st2)
        with ru Some a off Inr show ?thesis by (simp add: Suc.IH)
      qed
    qed
  qed
qed

lemma float_to_int_mono: "q1 \<le> q2 \<Longrightarrow> float_to_int q1 \<le> float_to_int q2"
proof -
  assume le: "q1 \<le> q2"
  consider "q2 < 0" | "q1 < 0" "0 \<le> q2" | "0 \<le> q1" by linarith
  then show ?thesis
  proof cases
    case 1
    then have "\<lfloor>- q2\<rfloor> \<le> \<lfloor>- q1\<rfloor>" using le by (intro floor_mono) simp
    with 1 le show ?thesis by (simp add: float_to_int_def)
  next
    case 2
    then have f: "0 \<le> \<lfloor>- q1\<rfloor>" "0 \<le> \<lfloor>q2\<rfloor>" by simp_all
    have "float_to_int q1 = - \<lfloor>- q1\<rfloor>" "float_to_int q2 = \<lfloor>q2\<rfloor>"
      using 2 by (simp_all add: float_to_int_def)
    with f show ?thesis by linarith
  next
    case 3
    with le show ?thesis by (simp add: float_to_int_def floor_mono)
  qed
qed

text \<open>
  C6: For a fixed seed string, width, height and wrapping flag, if the barrier probability
  p1 is at most p2 and \<open>new_game\<close> returns a state for each, then every barrier bit of the
  state for p1 is a barrier bit of the state for p2, and the two states have the same tiles.
\<close>

theorem barrier_superset:
  assumes le: "barrier_probability params \<le> p2"
    and n1: "new_game random_init random_upto params seed = Inr st1"
    and n2: "new_game random_init random_upto (params\<lparr>barrier_probability := p2\<rparr>) seed = Inr st2"
  shows "barriers_subset (barriers st1) (barriers st2) \<and> tiles st1 = tiles st2"
proof -
  let ?params2 = "params\<lparr>barrier_probability := p2\<rparr>"
  have bs: "blank_state ?params2 = blank_state params" by (simp add: blank_state_def)
  from n1 have w: "p_width params > 2" "p_height params > 2"
    by (auto simp: new_game_def split: if_splits)
  from n1 w obtain sb g cands sh r1 where
    b: "border_barriers (blank_state params) = Inr sb" and
    g: "unshuffled_grid random_upto sb (random_init seed) = Inr g" and
    c: "barrier_candidates (fst g) = Inr cands" and
    s: "shuffle random_upto (fst g) (snd g) = Inr sh" and
    a1: "0 \<le> float_to_int (barrier_probability params * of_nat (count234 cands))" and
    l1: "barrier_loop random_upto (nat (float_to_int (barrier_probability params * of_nat (count234 cands))))
           (fst sh) cands (snd sh) = Inr r1" and
    r1: "st1 = fst r1"
    by (auto simp: new_game_def ebind_Inr Let_def split: if_splits)
  from n2 w b g c s obtain r2 where
    l2: "barrier_loop random_upto (nat (float_to_int (p2 * of_nat (count234 cands))))
           (fst sh) cands (snd sh) = Inr r2" and
    r2: "st2 = fst r2"
    by (auto simp: new_game_def ebind_Inr Let_def bs split: if_splits)
  define k1 where "k1 = nat (float_to_int (barrier_probability params * of_nat (count234 cands)))"
  define k2 where "k2 = nat (float_to_int (p2 * of_nat (count234 cands)))"
  have "barrier_probability params * of_nat (count234 cands) \<le> p2 * of_nat (count234 cands)"
    using le by (simp add: mult_right_mono)
  then have "k1 \<le> k2" unfolding k1_def k2_def by (intro nat_mono float_to_int_mono)
  then obtain k where k: "k2 = k1 + k" using le_Suc_ex by blast
  from l2 have "ebind (barrier_loop random_upto k1 (fst sh) cands (snd sh))
                  (\<lambda>r. barrier_loop random_upto k (fst r) (fst (snd r)) (snd (snd r))) = Inr r2"
    by (simp add: k2_def [symmetric] k barrier_loop_add)
  with l1 have rest: "barrier_loop random_upto k (fst r1) (fst (snd r1)) (snd (snd r1)) = Inr r2"
    by (simp add: k1_def [symmetric])
  obtain s2 b2 g2 where r2': "r2 = (s2, b2, g2)" by (cases r2)
  from barrier_loop_subset [OF rest [unfolded r2']] r1 r2 r2'
  show ?thesis by simp
qed

lemma barrier_run_fifth:
  "new_game (\<lambda>seed. draws_a) replay_upto params_fifth ''123'' =
     Inr \<lparr>width = 3, height = 3, wrapping = True, completed = False,
          tiles = [13, 10, 8, 12, 7, 4, 9, 1, 4],
          barriers = [0, 1, 4, 4, 0, 1, 0, 0, 0]\<rparr>"
  by code_simp

lemma barrier_run_half:
  "new_game (\<lambda>seed. draws_a) replay_upto (params_fifth\<lparr>barrier_probability := 1 / 2\<rparr>) ''123'' =
     Inr \<lparr>width = 3, height = 3, wrapping = True, completed = False,
          tiles = [13, 10, 8, 12, 7, 4, 9, 1, 4],
          barriers = [0, 1, 12, 12, 0, 11, 2, 0, 2]\<rparr>"
  by code_simp

theorem barrier_superset_witness:
  "barrier_probability params_fifth \<le> 1 / 2 \<and>
   new_game (\<lambda>seed. draws_a) replay_upto params_fifth ''123'' =
     Inr \<lparr>width = 3, height = 3, wrapping = True, completed = False,
          tiles = [13, 10, 8, 12, 7, 4, 9, 1, 4],
          barriers = [0, 1, 4, 4, 0, 1, 0, 0, 0]\<rparr> \<and>
   new_game (\<lambda>seed. draws_a) replay_upto (params_fifth\<lparr>barrier_probability := 1 / 2\<rparr>) ''123'' =
     Inr \<lparr>width = 3, height = 3, wrapping = True, completed = False,
          tiles = [13, 10, 8, 12, 7, 4, 9, 1, 4],
          barriers = [0, 1, 12, 12, 0, 11, 2, 0, 2]\<rparr> \<and>
   barriers_subset [0, 1, 4, 4, 0, 1, 0, 0, 0] [0, 1, 12, 12, 0, 11, 2, 0, 2]"
proof -
  have le: "barrier_probability params_fifth \<le> 1 / 2" by (simp add: params_fifth_def)
  from barrier_superset [OF le barrier_run_fifth barrier_run_half] le
    barrier_run_fifth barrier_run_half
  show ?thesis by simp
qed

section \<open>Direction masks\<close>

lemma dirs_iff: "d \<in> set dirs \<longleftrightarrow> d = R \<or> d = U \<or> d = L \<or> d = D"
  by (auto simp: dirs_def R_def U_def L_def D_def)

lemma dirs_cases: "d \<in> set dirs \<Longrightarrow> d = 1 \<or> d = 2 \<or> d = 4 \<or> d = 8"
  by (auto simp: dirs_def)

lemma F_values: "F 1 = 4" "F 2 = 8" "F 4 = 1" "F 8 = 2" "F 0 = 0"
  by (simp_all add: F_def)

lemma F_in_dirs: "d \<in> set dirs \<Longrightarrow> F d \<in> set dirs"
  by (auto dest!: dirs_cases simp: F_values) (simp_all add: dirs_def)

lemma F_F: "d \<in> set dirs \<Longrightarrow> F (F d) = d"
  by (auto dest!: dirs_cases simp: F_values)

lemma F_neq: "d \<in> set dirs \<Longrightarrow> F d \<noteq> d"
  by (auto dest!: dirs_cases simp: F_values)

lemma F_inj: "d \<in> set dirs \<Longrightarrow> e \<in> set dirs \<Longrightarrow> F d = F e \<Longrightarrow> d = e"
  by (auto dest!: dirs_cases simp: F_values)

lemma dir_neq_0: "d \<in> set dirs \<Longrightarrow> d \<noteq> 0"
  by (auto dest!: dirs_cases)

lemma has_dir_zero [simp]: "\<not> has_dir 0 d"
  by (simp add: has_dir_def)

lemma has_dir_nonzero: "has_dir t d \<Longrightarrow> t \<noteq> 0"
  by (auto simp: has_dir_def)

lemma dir_and_dir: "d \<in> set dirs \<Longrightarrow> e \<in> set dirs \<Longrightarrow> d AND e = (if d = e then d else 0)"
  by (auto dest!: dirs_cases)

lemma has_dir_or:
  assumes "d \<in> set dirs" "e \<in> set dirs"
  shows "has_dir (t OR e) d \<longleftrightarrow> has_dir t d \<or> d = e"
proof -
  have "(t OR e) AND d = (t AND d) OR (e AND d)" by (simp add: bit.conj_disj_distrib2)
  also have "e AND d = (if e = d then e else 0)" using assms by (simp add: dir_and_dir)
  finally show ?thesis using assms by (auto simp: has_dir_def or_eq_0_iff dir_neq_0)
qed

lemma has_dir_dir: "d \<in> set dirs \<Longrightarrow> e \<in> set dirs \<Longrightarrow> has_dir e d \<longleftrightarrow> d = e"
  by (auto simp: has_dir_def dir_and_dir dir_neq_0)

lemma nibble_or: "t AND 0x0F = t \<Longrightarrow> d \<in> set dirs \<Longrightarrow> (t OR d) AND 0x0F = t OR d"
  by (auto dest!: dirs_cases simp: bit.conj_disj_distrib2)

lemma nibble_dir: "d \<in> set dirs \<Longrightarrow> d AND 0x0F = d"
  by (auto dest!: dirs_cases)

lemma COUNT_and: "COUNT (t AND 0x0F) = COUNT t"
proof -
  have "(t AND 0x0F) AND 0x08 = t AND 0x08" "(t AND 0x0F) AND 0x04 = t AND 0x04"
    "(t AND 0x0F) AND 0x02 = t AND 0x02" "(t AND 0x0F) AND 0x01 = t AND 0x01"
    by (simp_all add: and.assoc)
  then show ?thesis by (simp only: COUNT_def)
qed

lemma COUNT_or_nibble:
  "t AND 0x0F = t \<Longrightarrow> d \<in> set dirs \<Longrightarrow> \<not> has_dir t d \<Longrightarrow> COUNT (t OR d) = Suc (COUNT t)"
  by (drule nibble_cases, drule dirs_cases) (auto simp: COUNT_def has_dir_def)

lemma COUNT_dir: "d \<in> set dirs \<Longrightarrow> COUNT d = 1"
  by (auto dest!: dirs_cases simp: COUNT_def)

lemma COUNT_zero [simp]: "COUNT 0 = 0"
  by (simp add: COUNT_def)

lemma COUNT_le_3_nibble: "t AND 0x0F = t \<Longrightarrow> COUNT t \<le> 3 \<longleftrightarrow> t \<noteq> 0x0F"
  by (drule nibble_cases) (auto simp: COUNT_def)

lemma COUNT_le_3: "COUNT t \<le> 3 \<longleftrightarrow> t AND 0x0F \<noteq> 0x0F"
  using COUNT_le_3_nibble [of "t AND 0x0F"] by (simp add: COUNT_and and.assoc)

lemma T_piece_missing:
  "t AND 0x0F = t \<Longrightarrow> COUNT t = 3 \<Longrightarrow> 0x0F XOR t \<in> set dirs \<and> \<not> has_dir t (0x0F XOR t)"
  by (drule nibble_cases) (auto simp: COUNT_def has_dir_def dirs_def)

lemma T_piece_unique:
  "t AND 0x0F = t \<Longrightarrow> COUNT t = 3 \<Longrightarrow> d \<in> set dirs \<Longrightarrow> \<not> has_dir t d \<Longrightarrow> d = 0x0F XOR t"
  by (drule nibble_cases, drule dirs_cases) (auto simp: COUNT_def has_dir_def)

lemma T_piece_has:
  "t AND 0x0F = t \<Longrightarrow> COUNT t = 3 \<Longrightarrow> d \<in> set dirs \<Longrightarrow> d \<noteq> 0x0F XOR t \<Longrightarrow> has_dir t d"
  using T_piece_unique by blast

lemma COUNT_le_2_or:
  "t AND 0x0F = t \<Longrightarrow> d \<in> set dirs \<Longrightarrow> \<not> has_dir t d \<Longrightarrow> COUNT t \<le> 2 \<Longrightarrow> COUNT (t OR d) \<le> 3"
  by (simp add: COUNT_or_nibble)

text \<open>Rotations keep the number of directions.\<close>

lemma A_and: "A (t AND 0x0F) = A t"
  unfolding A_def by (simp add: and.assoc)

lemma C_and: "C (t AND 0x0F) = C t"
  unfolding C_def by (simp add: and.assoc)

lemma F_and: "F (t AND 0x0F) = F t"
  unfolding F_def by (simp add: and.assoc)

lemma COUNT_A_nibble: "t AND 0x0F = t \<Longrightarrow> COUNT (A t) = COUNT t"
  by (drule nibble_cases) (auto simp: COUNT_def A_def)

lemma COUNT_C_nibble: "t AND 0x0F = t \<Longrightarrow> COUNT (C t) = COUNT t"
  by (drule nibble_cases) (auto simp: COUNT_def C_def)

lemma COUNT_F_nibble: "t AND 0x0F = t \<Longrightarrow> COUNT (F t) = COUNT t"
  by (drule nibble_cases) (auto simp: COUNT_def F_def)

lemma COUNT_A: "COUNT (A t) = COUNT t"
  using COUNT_A_nibble [of "t AND 0x0F"] by (simp add: A_and COUNT_and and.assoc)

lemma COUNT_C: "COUNT (C t) = COUNT t"
  using COUNT_C_nibble [of "t AND 0x0F"] by (simp add: C_and COUNT_and and.assoc)

lemma COUNT_F: "COUNT (F t) = COUNT t"
  using COUNT_F_nibble [of "t AND 0x0F"] by (simp add: F_and COUNT_and and.assoc)

lemma COUNT_ROT: "COUNT (ROT t n) = COUNT t"
  by (simp add: ROT_def COUNT_A COUNT_C COUNT_F)

section \<open>Neighbours\<close>

lemma X_values: "X 1 = 1" "X 2 = 0" "X 4 = -1" "X 8 = 0"
  by (simp_all add: X_def R_def L_def)

lemma Y_values: "Y 1 = 0" "Y 2 = -1" "Y 4 = 0" "Y 8 = 1"
  by (simp_all add: Y_def D_def U_def)

lemma mod_succ: "x < w \<Longrightarrow> nat ((int x + int w + 1) mod int w) = (if x = w - 1 then 0 else x + 1)"
proof -
  assume a: "x < w"
  have "int x + int w + 1 = int (x + 1 + w)" by simp
  then have "(int x + int w + 1) mod int w = int ((x + 1 + w) mod w)"
    by (simp only: zmod_int)
  moreover have "(x + 1 + w) mod w = (x + 1) mod w" by (rule mod_add_self2)
  moreover have "(x + 1) mod w = (if x = w - 1 then 0 else x + 1)" using a by (auto simp: mod_if)
  ultimately show ?thesis by simp
qed

lemma mod_pred: "x < w \<Longrightarrow> nat ((int x + int w + - 1) mod int w) = (if x = 0 then w - 1 else x - 1)"
proof -
  assume a: "x < w"
  have "int x + int w + - 1 = int (x + w - 1)" using a by simp
  then have "(int x + int w + - 1) mod int w = int ((x + w - 1) mod w)"
    by (simp only: zmod_int)
  moreover have "(x + w - 1) mod w = (if x = 0 then w - 1 else x - 1)"
  proof (cases "x = 0")
    case True then show ?thesis using a by simp
  next
    case False
    then have "x + w - 1 = (x - 1) + w" by simp
    moreover have "(x - 1 + w) mod w = x - 1" using a by simp
    ultimately show ?thesis using False by simp
  qed
  ultimately show ?thesis by simp
qed

lemma mod_same: "x < w \<Longrightarrow> nat ((int x + int w + 0) mod int w) = x"
proof -
  assume a: "x < w"
  have "(int x + int w + 0) mod int w = int ((x + w) mod w)" by (simp add: zmod_int)
  then show ?thesis using a by simp
qed

lemma neighbour_R:
  "on_board st (x, y) \<Longrightarrow> neighbour st (x, y) 1 = (if x = width st - 1 then 0 else x + 1, y)"
  by (simp add: neighbour_def OFFSET_def on_board_def X_values Y_values mod_succ mod_same [simplified])

lemma neighbour_L:
  "on_board st (x, y) \<Longrightarrow> neighbour st (x, y) 4 = (if x = 0 then width st - 1 else x - 1, y)"
  using mod_pred [of x "width st"] mod_same [of y "height st"]
  by (simp add: neighbour_def OFFSET_def on_board_def X_values Y_values)

lemma neighbour_U:
  "on_board st (x, y) \<Longrightarrow> neighbour st (x, y) 2 = (x, if y = 0 then height st - 1 else y - 1)"
  using mod_pred [of y "height st"] mod_same [of x "width st"]
  by (simp add: neighbour_def OFFSET_def on_board_def X_values Y_values)

lemma neighbour_D:
  "on_board st (x, y) \<Longrightarrow> neighbour st (x, y) 8 = (x, if y = height st - 1 then 0 else y + 1)"
  by (simp add: neighbour_def OFFSET_def on_board_def X_values Y_values mod_succ mod_same [simplified])

lemmas neighbour_simps = neighbour_R neighbour_L neighbour_U neighbour_D

lemma off_board_values:
  "off_board st c 1 = (\<not> wrapping st \<and> fst c = width st - 1)"
  "off_board st c 2 = (\<not> wrapping st \<and> snd c = 0)"
  "off_board st c 4 = (\<not> wrapping st \<and> fst c = 0)"
  "off_board st c 8 = (\<not> wrapping st \<and> snd c = height st - 1)"
  by (auto simp: off_board_def R_def U_def L_def D_def)

lemma neighbour_on_board:
  "on_board st c \<Longrightarrow> d \<in> set dirs \<Longrightarrow> on_board st (neighbour st c d)"
  by (cases c) (auto dest!: dirs_cases simp: neighbour_simps, auto simp: on_board_def)

lemma neighbour_back:
  "on_board st c \<Longrightarrow> 2 < width st \<Longrightarrow> 2 < height st \<Longrightarrow> d \<in> set dirs \<Longrightarrow>
     neighbour st (neighbour st c d) (F d) = c"
  by (cases c) (auto dest!: dirs_cases simp: neighbour_simps F_values on_board_def)

lemma neighbour_neq:
  "on_board st c \<Longrightarrow> 2 < width st \<Longrightarrow> 2 < height st \<Longrightarrow> d \<in> set dirs \<Longrightarrow>
     neighbour st c d \<noteq> c"
  by (cases c) (auto dest!: dirs_cases simp: neighbour_simps on_board_def split: if_splits)

lemma neighbour_inj_dir:
  "on_board st c \<Longrightarrow> 2 < width st \<Longrightarrow> 2 < height st \<Longrightarrow> d \<in> set dirs \<Longrightarrow> e \<in> set dirs \<Longrightarrow>
     neighbour st c d = neighbour st c e \<Longrightarrow> d = e"
  by (cases c) (auto dest!: dirs_cases simp: neighbour_simps on_board_def split: if_splits)

lemma neighbour_comm:
  "on_board st c \<Longrightarrow> 2 < width st \<Longrightarrow> 2 < height st \<Longrightarrow> d \<in> set dirs \<Longrightarrow> e \<in> set dirs \<Longrightarrow>
     neighbour st (neighbour st c d) e = neighbour st (neighbour st c e) d"
  by (cases c) (auto dest!: dirs_cases simp: neighbour_simps on_board_def)

lemma off_board_back:
  "on_board st c \<Longrightarrow> 2 < width st \<Longrightarrow> 2 < height st \<Longrightarrow> d \<in> set dirs \<Longrightarrow>
     off_board st (neighbour st c d) (F d) = off_board st c d"
  by (cases c)
    (auto dest!: dirs_cases simp: neighbour_simps F_values off_board_values on_board_def
      split: if_splits)

lemma off_board_side:
  "on_board st c \<Longrightarrow> d \<in> set dirs \<Longrightarrow> e \<in> set dirs \<Longrightarrow> e \<noteq> d \<Longrightarrow> e \<noteq> F d \<Longrightarrow>
     off_board st (neighbour st c e) d = off_board st c d"
  by (cases c) (auto dest!: dirs_cases simp: neighbour_simps F_values off_board_values)

text \<open>The same in the terms of the source: the macro \<open>OFFSET\<close> and the checked reads.\<close>

lemma OFFSET_neighbour: "OFFSET x y d st = neighbour st (x, y) d"
  by (simp add: neighbour_def)

lemma idx_less: "on_board st c \<Longrightarrow> snd c * width st + fst c < width st * height st"
proof -
  assume a: "on_board st c"
  then have "snd c * width st + fst c < snd c * width st + width st" by (simp add: on_board_def)
  also have "\<dots> = Suc (snd c) * width st" by simp
  also have "\<dots> \<le> height st * width st"
    using a by (intro mult_le_mono1) (simp add: on_board_def)
  finally show ?thesis by (simp add: mult.commute)
qed

lemma idx_inj:
  assumes "on_board st c" "on_board st c'" "snd c * width st + fst c = snd c' * width st + fst c'"
  shows "c = c'"
proof -
  from assms have "(snd c * width st + fst c) div width st = (snd c' * width st + fst c') div width st"
    "(snd c * width st + fst c) mod width st = (snd c' * width st + fst c') mod width st" by simp_all
  with assms(1,2) have "snd c = snd c'" "fst c = fst c'" by (simp_all add: on_board_def)
  then show ?thesis by (simp add: prod_eq_iff)
qed

lemma tile_on_board:
  "on_board st (x, y) \<Longrightarrow> length (tiles st) = width st * height st \<Longrightarrow>
     tile st x y = Inr (tile_at st (x, y))"
  using idx_less [of st "(x, y)"] by (simp add: tile_Inr tile_at_def)

section \<open>The candidate set as a set\<close>

lemma xyd_cmp_eq: "xyd_cmp a b = 0 \<longleftrightarrow> a = b"
  by (cases a, cases b) (auto simp: xyd_cmp_def)

lemma xyd_cmp_trans: "xyd_cmp a b < 0 \<Longrightarrow> xyd_cmp b c < 0 \<Longrightarrow> xyd_cmp a c < 0"
  by (cases a, cases b, cases c) (auto simp: xyd_cmp_def split: if_splits)

lemma xyd_cmp_irrefl: "\<not> xyd_cmp a a < 0"
  by (cases a) (simp add: xyd_cmp_def)

lemma xyd_cmp_total: "xyd_cmp a b < 0 \<or> a = b \<or> xyd_cmp b a < 0"
  by (cases a, cases b) (auto simp: xyd_cmp_def)

lemma sorted234_Nil [simp]: "sorted234 []"
  by (simp add: sorted234_def)

lemma sorted234_Cons: "sorted234 (a # t) \<longleftrightarrow> (\<forall>b \<in> set t. xyd_cmp a b < 0) \<and> sorted234 t"
  by (simp add: sorted234_def)

lemma sorted234_distinct: "sorted234 t \<Longrightarrow> distinct t"
  by (induction t) (auto simp: sorted234_Cons xyd_cmp_irrefl)

lemma find234_eq: "find234 t e = (if e \<in> set t then Some e else None)"
  by (induction t) (auto simp: xyd_cmp_eq)

lemma del234_eq: "del234 t e = remove1 e t"
  by (induction t) (auto simp: xyd_cmp_eq)

lemma remove_if_found_eq: "remove_if_found t e = remove1 e t"
  by (simp add: remove_if_found_def find234_eq del234_eq remove1_idem)

lemma sorted234_remove1: "sorted234 t \<Longrightarrow> sorted234 (remove1 e t)"
  by (induction t) (auto simp: sorted234_Cons dest: notin_set_remove1)

lemma set_remove1_sorted: "sorted234 t \<Longrightarrow> set (remove1 e t) = set t - {e}"
  by (simp add: sorted234_distinct)

lemma set_add234: "set (add234 t e) = insert e (set t)"
  by (induction t) (auto simp: xyd_cmp_eq)

lemma sorted234_add234: "sorted234 t \<Longrightarrow> sorted234 (add234 t e)"
proof (induction t)
  case Nil
  then show ?case by (simp add: sorted234_Cons)
next
  case (Cons a t)
  show ?case
  proof (cases "xyd_cmp e a < 0")
    case True
    with Cons.prems show ?thesis by (auto simp: sorted234_Cons intro: xyd_cmp_trans)
  next
    case False
    show ?thesis
    proof (cases "xyd_cmp e a = 0")
      case True
      with False Cons.prems show ?thesis by simp
    next
      case ne: False
      with False have "xyd_cmp a e < 0" using xyd_cmp_total [of e a] by (auto simp: xyd_cmp_eq)
      with False ne Cons show ?thesis by (auto simp: sorted234_Cons set_add234)
    qed
  qed
qed

lemma delpos234_Some:
  assumes "delpos234 t i = Some (e, t1)" "sorted234 t"
  shows "e \<in> set t" "set t1 = set t - {e}" "sorted234 t1"
proof -
  from assms(1) have i: "i < length t" and e: "e = t ! i" and t1: "t1 = take i t @ drop (Suc i) t"
    by (auto simp: delpos234_def split: if_splits)
  have t: "t = take i t @ e # drop (Suc i) t" using i e by (simp add: id_take_nth_drop)
  show "e \<in> set t" using i e by simp
  have "distinct (take i t @ e # drop (Suc i) t)" using assms(2) t by (simp add: sorted234_distinct)
  then have "e \<notin> set (take i t)" "e \<notin> set (drop (Suc i) t)" by auto
  moreover have "set t = set (take i t) \<union> {e} \<union> set (drop (Suc i) t)"
    by (subst t) auto
  ultimately show "set t1 = set t - {e}" by (auto simp: t1)
  have "sorted_wrt (\<lambda>a b. xyd_cmp a b < 0) (take i t @ e # drop (Suc i) t)"
    using assms(2) t by (simp add: sorted234_def)
  then show "sorted234 t1"
    by (auto simp: sorted234_def t1 sorted_wrt_append)
qed

lemma delpos234_in_range:
  "i < length t \<Longrightarrow> delpos234 t i = Some (t ! i, take i t @ drop (Suc i) t)"
  by (simp add: delpos234_def)

text \<open>The two loops over the directions, as sets.\<close>

lemma remove_pointing_eq:
  "sorted234 t \<Longrightarrow>
     sorted234 (remove_pointing st x2 y2 ds t) \<and>
     set (remove_pointing st x2 y2 ds t) = set t - pointing st (x2, y2) ` set ds"
proof (induction ds arbitrary: t)
  case Nil
  then show ?case by simp
next
  case (Cons d ds)
  obtain x3 y3 where o: "OFFSET x2 y2 d st = (x3, y3)" by (cases "OFFSET x2 y2 d st")
  then have p: "pointing st (x2, y2) d = (x3, y3, F d)" by (simp add: pointing_def neighbour_def)
  let ?t1 = "remove1 (x3, y3, F d) t"
  have s1: "sorted234 ?t1" using Cons.prems by (rule sorted234_remove1)
  have e1: "set ?t1 = set t - {(x3, y3, F d)}" using Cons.prems by (rule set_remove1_sorted)
  have r: "remove_pointing st x2 y2 (d # ds) t = remove_pointing st x2 y2 ds ?t1"
    using o by (simp add: remove_if_found_eq)
  from Cons.IH [OF s1] have "sorted234 (remove_pointing st x2 y2 ds ?t1)"
    "set (remove_pointing st x2 y2 ds ?t1) = set t - {(x3, y3, F d)} - pointing st (x2, y2) ` set ds"
    by (simp_all add: e1)
  then show ?case unfolding r using p by auto
qed

lemma add_frontier_eq:
  assumes "sorted234 t" "length (tiles st) = width st * height st" "on_board st (x2, y2)"
    "set ds \<subseteq> set dirs"
  shows "\<exists>t'. add_frontier st x2 y2 d2 ds t = Inr t' \<and> sorted234 t' \<and>
           set t' = set t \<union> {(x2, y2, d) | d. d \<in> set ds \<and> d \<noteq> d2 \<and> \<not> off_board st (x2, y2) d \<and>
                                      tile_at st (neighbour st (x2, y2) d) = 0}"
  using assms
proof (induction ds arbitrary: t)
  case Nil
  then show ?case by simp
next
  case (Cons d ds)
  have d: "d \<in> set dirs" and ds: "set ds \<subseteq> set dirs" using Cons.prems(4) by auto
  have ob: "(\<not> wrapping st \<and>
              (d = U \<and> y2 = 0 \<or> d = D \<and> y2 = height st - 1 \<or>
               d = L \<and> x2 = 0 \<or> d = R \<and> x2 = width st - 1)) = off_board st (x2, y2) d"
    by (simp add: off_board_def)
  obtain x3 y3 where o: "neighbour st (x2, y2) d = (x3, y3)" by (cases "neighbour st (x2, y2) d")
  then have "on_board st (x3, y3)" using neighbour_on_board [OF Cons.prems(3) d] by simp
  then have t3: "tile st x3 y3 = Inr (tile_at st (x3, y3))"
    using Cons.prems(2) by (rule tile_on_board)
  note IH = Cons.IH [OF _ Cons.prems(2,3) ds]
  show ?case
  proof (cases "d = d2 \<or> off_board st (x2, y2) d \<or> tile_at st (x3, y3) \<noteq> 0")
    case True
    from IH [OF Cons.prems(1)] obtain t' where
      "add_frontier st x2 y2 d2 ds t = Inr t'" "sorted234 t'"
      "set t' = set t \<union> {(x2, y2, d) | d. d \<in> set ds \<and> d \<noteq> d2 \<and> \<not> off_board st (x2, y2) d \<and>
                                      tile_at st (neighbour st (x2, y2) d) = 0}" by blast
    with True o t3 show ?thesis
      by (auto simp: ob OFFSET_neighbour simp del: One_nat_def)
  next
    case False
    from IH [OF sorted234_add234 [OF Cons.prems(1), of "(x2, y2, d)"]] obtain t' where
      "add_frontier st x2 y2 d2 ds (add234 t (x2, y2, d)) = Inr t'" "sorted234 t'"
      "set t' = set (add234 t (x2, y2, d)) \<union>
          {(x2, y2, d) | d. d \<in> set ds \<and> d \<noteq> d2 \<and> \<not> off_board st (x2, y2) d \<and>
                                      tile_at st (neighbour st (x2, y2) d) = 0}" by blast
    with False o t3 show ?thesis
      by (auto simp: ob OFFSET_neighbour set_add234 simp del: One_nat_def)
  qed
qed

section \<open>One iteration of the grid loop\<close>

lemma connect_fields [simp]:
  "width (connect st c d) = width st" "height (connect st c d) = height st"
  "wrapping (connect st c d) = wrapping st" "barriers (connect st c d) = barriers st"
  "length (tiles (connect st c d)) = length (tiles st)"
  by (simp_all add: connect_def)

lemma connect_geometry [simp]:
  "neighbour (connect st c d) = neighbour st" "on_board (connect st c d) = on_board st"
  "off_board (connect st c d) = off_board st" "centre (connect st c d) = centre st"
  "cell_idx (connect st c d) = cell_idx st" "pointing (connect st c d) = pointing st"
  "well_formed (connect st c d) = well_formed st"
  by (auto simp: fun_eq_iff neighbour_def OFFSET_def on_board_def off_board_def centre_def
      cell_idx_def pointing_def well_formed_def)

lemma tile_at_connect:
  assumes wf: "well_formed st" and c1: "on_board st c1" and d1: "d1 \<in> set dirs"
    and c: "on_board st c"
  shows "tile_at (connect st c1 d1) c =
           (if c = neighbour st c1 d1 then F d1
            else if c = c1 then tile_at st c1 OR d1 else tile_at st c)"
proof -
  let ?c2 = "neighbour st c1 d1"
  have ob2: "on_board st ?c2" using c1 d1 by (rule neighbour_on_board)
  have len: "length (tiles st) = width st * height st" using wf by (simp add: well_formed_def)
  have i: "cell_idx st c < length (tiles st)" "cell_idx st c1 < length (tiles st)"
    "cell_idx st ?c2 < length (tiles st)"
    using idx_less [OF c] idx_less [OF c1] idx_less [OF ob2] by (simp_all add: cell_idx_def len)
  have inj: "\<And>a b. on_board st a \<Longrightarrow> on_board st b \<Longrightarrow> cell_idx st a = cell_idx st b \<longleftrightarrow> a = b"
    using idx_inj by (auto simp: cell_idx_def)
  have "tile_at (connect st c1 d1) c =
          (tiles st)[cell_idx st c1 := tile_at st c1 OR d1, cell_idx st ?c2 := F d1] ! cell_idx st c"
    by (simp add: tile_at_def connect_def cell_idx_def)
  also have "\<dots> = (if c = ?c2 then F d1 else if c = c1 then tile_at st c1 OR d1 else tile_at st c)"
    using i inj [OF ob2 c] inj [OF c1 c]
    by (auto simp: nth_list_update tile_at_def cell_idx_def)
  finally show ?thesis .
qed

text \<open>What a successful iteration does, given that the candidate set is sorted.\<close>

lemma grid_step_char:
  assumes wf: "well_formed st" and so: "sorted234 poss"
    and ob: "\<forall>(x, y, d) \<in> set poss. on_board st (x, y) \<and> d \<in> set dirs"
    and step: "grid_step ru st poss rs = Inr (st', poss', rs')"
  obtains x1 y1 d1 where
    "(x1, y1, d1) \<in> set poss"
    "tile_at st (neighbour st (x1, y1) d1) = 0 \<or> neighbour st (x1, y1) d1 = (x1, y1)"
    "st' = connect st (x1, y1) d1"
    "sorted234 poss'"
    "set poss' =
       (set poss - {(x1, y1, d1)}
          - (if COUNT (tile_at st' (x1, y1)) = 3 then {(x1, y1, 0x0F XOR tile_at st' (x1, y1))} else {})
          - pointing st (neighbour st (x1, y1) d1) ` set dirs)
       \<union> {(fst (neighbour st (x1, y1) d1), snd (neighbour st (x1, y1) d1), d) | d.
            d \<in> set dirs \<and> d \<noteq> F d1 \<and> \<not> off_board st (neighbour st (x1, y1) d1) d \<and>
            tile_at st' (neighbour st (neighbour st (x1, y1) d1) d) = 0}"
proof -
  from step obtain i x1 y1 d1 poss1 x2 y2 st1 t1 where
    dp: "delpos234 poss i = Some ((x1, y1, d1), poss1)" and
    off: "OFFSET x1 y1 d1 st = (x2, y2)" and
    s1: "or_tile st x1 y1 d1 = Inr st1" and
    z: "tile st1 x2 y2 = Inr 0" and
    s2: "or_tile st1 x2 y2 (F d1) = Inr st'" and
    t1: "tile st' x1 y1 = Inr t1" and
    af: "add_frontier st' x2 y2 (F d1) dirs
       (remove_pointing st' x2 y2 dirs
          (if COUNT t1 = 3 then remove_if_found poss1 (x1, y1, 0x0F XOR t1) else poss1)) = Inr poss'"
    by (rule grid_step_InrE)
  let ?c1 = "(x1, y1)" and ?c2 = "(x2, y2)"
  have c2: "neighbour st ?c1 d1 = ?c2" using off by (simp add: neighbour_def)
  from delpos234_Some [OF dp so] have mem: "(x1, y1, d1) \<in> set poss"
    and set1: "set poss1 = set poss - {(x1, y1, d1)}" and so1: "sorted234 poss1" by auto
  from mem ob have ob1: "on_board st ?c1" and d1: "d1 \<in> set dirs" by auto
  have ob2: "on_board st ?c2" using neighbour_on_board [OF ob1 d1] c2 by simp
  have len: "length (tiles st) = width st * height st" using wf by (simp add: well_formed_def)
  from s1 have st1: "st1 = st\<lparr>tiles := (tiles st)[cell_idx st ?c1 := tile_at st ?c1 OR d1]\<rparr>"
    by (simp add: or_tile_Inr cell_idx_def tile_at_def)
  have i2: "cell_idx st ?c2 < length (tiles st)" using idx_less [OF ob2] len by (simp add: cell_idx_def)
  from z have z1: "tiles st1 ! cell_idx st ?c2 = 0"
    by (simp add: tile_Inr st1 cell_idx_def)
  from s2 z1 have st': "st' = connect st ?c1 d1"
    by (simp add: or_tile_Inr st1 connect_def c2 cell_idx_def)
  have zero: "tile_at st ?c2 = 0 \<or> ?c2 = ?c1"
  proof (cases "?c2 = ?c1")
    case False
    then have "cell_idx st ?c2 \<noteq> cell_idx st ?c1"
      using idx_inj [OF ob2 ob1] by (auto simp: cell_idx_def)
    with z1 show ?thesis by (simp add: st1 tile_at_def cell_idx_def)
  qed simp
  have wf': "well_formed st'" using wf by (simp add: st')
  have t1': "t1 = tile_at st' ?c1"
    using t1 by (simp add: tile_Inr tile_at_def)
  let ?p2 = "if COUNT t1 = 3 then remove_if_found poss1 (x1, y1, 0x0F XOR t1) else poss1"
  have so2: "sorted234 ?p2" using so1 by (simp add: remove_if_found_eq sorted234_remove1)
  have set2: "set ?p2 = set poss1 - (if COUNT t1 = 3 then {(x1, y1, 0x0F XOR t1)} else {})"
    using so1 by (simp add: remove_if_found_eq set_remove1_sorted)
  from remove_pointing_eq [OF so2, of st' x2 y2 dirs]
  have so3: "sorted234 (remove_pointing st' x2 y2 dirs ?p2)"
    and set3: "set (remove_pointing st' x2 y2 dirs ?p2) = set ?p2 - pointing st ?c2 ` set dirs"
    by (simp_all add: st')
  have len': "length (tiles st') = width st' * height st'" using wf' by (simp add: well_formed_def)
  have ob2': "on_board st' (x2, y2)" using ob2 by (simp add: st')
  from add_frontier_eq [OF so3 len' ob2' subset_refl, of "F d1"] af
  have so4: "sorted234 poss'" and
    set4: "set poss' = set (remove_pointing st' x2 y2 dirs ?p2) \<union>
       {(x2, y2, d) | d. d \<in> set dirs \<and> d \<noteq> F d1 \<and> \<not> off_board st' (x2, y2) d \<and>
                          tile_at st' (neighbour st' (x2, y2) d) = 0}"
    by auto
  show thesis
  proof (rule that [of x1 y1 d1])
    show "(x1, y1, d1) \<in> set poss" by (rule mem)
    show "tile_at st (neighbour st (x1, y1) d1) = 0 \<or> neighbour st (x1, y1) d1 = (x1, y1)"
      using zero by (simp add: c2)
    show "st' = connect st (x1, y1) d1" by (rule st')
    show "sorted234 poss'" by (rule so4)
    show "set poss' =
       (set poss - {(x1, y1, d1)}
          - (if COUNT (tile_at st' (x1, y1)) = 3 then {(x1, y1, 0x0F XOR tile_at st' (x1, y1))} else {})
          - pointing st (neighbour st (x1, y1) d1) ` set dirs)
       \<union> {(fst (neighbour st (x1, y1) d1), snd (neighbour st (x1, y1) d1), d) | d.
            d \<in> set dirs \<and> d \<noteq> F d1 \<and> \<not> off_board st (neighbour st (x1, y1) d1) d \<and>
            tile_at st' (neighbour st (neighbour st (x1, y1) d1) d) = 0}"
      unfolding set4 set3 set2 set1 c2 t1' [symmetric]
      by (simp add: st')
  qed
qed

section \<open>The invariant of the grid loop\<close>

text \<open>The facts about a possibility taken from the set.\<close>

lemma move_facts:
  assumes inv: "grid_inv st poss" and mem: "(x1, y1, d1) \<in> set poss"
  shows "on_board st (x1, y1)" "d1 \<in> set dirs" "\<not> off_board st (x1, y1) d1"
    "reached st (x1, y1)" "on_board st (neighbour st (x1, y1) d1)"
    "tile_at st (neighbour st (x1, y1) d1) = 0" "neighbour st (x1, y1) d1 \<noteq> centre st"
    "neighbour st (x1, y1) d1 \<noteq> (x1, y1)" "\<not> has_dir (tile_at st (x1, y1)) d1"
    "COUNT (tile_at st (x1, y1)) \<le> 2" "tile_at st (x1, y1) AND 0x0F = tile_at st (x1, y1)"
proof -
  from inv have po: "poss_ok st poss" and sy: "sym st" and nb: "nibbles st" and wf: "well_formed st"
    by (simp_all add: grid_inv_def)
  from po mem have ob: "on_board st (x1, y1)" and d: "d1 \<in> set dirs"
    and nob: "\<not> off_board st (x1, y1) d1" and r: "reached st (x1, y1)"
    and nr: "\<not> reached st (neighbour st (x1, y1) d1)" and cn: "COUNT (tile_at st (x1, y1)) \<le> 2"
    by (auto simp: poss_ok_def)
  show "on_board st (x1, y1)" "d1 \<in> set dirs" "\<not> off_board st (x1, y1) d1"
    "reached st (x1, y1)" "COUNT (tile_at st (x1, y1)) \<le> 2"
    by (rule ob d nob r cn)+
  show "on_board st (neighbour st (x1, y1) d1)" using ob d by (rule neighbour_on_board)
  from nr show z: "tile_at st (neighbour st (x1, y1) d1) = 0"
    and "neighbour st (x1, y1) d1 \<noteq> centre st" by (auto simp: reached_def)
  from r nr show "neighbour st (x1, y1) d1 \<noteq> (x1, y1)" by auto
  show "\<not> has_dir (tile_at st (x1, y1)) d1"
  proof
    assume "has_dir (tile_at st (x1, y1)) d1"
    with sy ob d have "has_dir (tile_at st (neighbour st (x1, y1) d1)) (F d1)"
      by (auto simp: sym_def)
    with z show False by simp
  qed
  from nb ob show "tile_at st (x1, y1) AND 0x0F = tile_at st (x1, y1)" by (simp add: nibbles_def)
qed

lemma has_dir_connect:
  assumes inv: "grid_inv st poss" and mem: "(x1, y1, d1) \<in> set poss"
    and c: "on_board st c" and d: "d \<in> set dirs"
  shows "has_dir (tile_at (connect st (x1, y1) d1) c) d \<longleftrightarrow>
           has_dir (tile_at st c) d \<or> c = (x1, y1) \<and> d = d1 \<or>
           c = neighbour st (x1, y1) d1 \<and> d = F d1"
proof -
  note f = move_facts [OF inv mem]
  from inv have wf: "well_formed st" by (simp add: grid_inv_def)
  have Fd: "F d1 \<in> set dirs" using f(2) by (rule F_in_dirs)
  show ?thesis
    unfolding tile_at_connect [OF wf f(1) f(2) c]
    using f(6) f(8) d f(2) Fd
    by (auto simp: has_dir_or has_dir_dir)
qed

lemma zero_connect:
  assumes inv: "grid_inv st poss" and mem: "(x1, y1, d1) \<in> set poss" and c: "on_board st c"
  shows "tile_at (connect st (x1, y1) d1) c = 0 \<longleftrightarrow>
           tile_at st c = 0 \<and> c \<noteq> (x1, y1) \<and> c \<noteq> neighbour st (x1, y1) d1"
proof -
  note f = move_facts [OF inv mem]
  from inv have wf: "well_formed st" by (simp add: grid_inv_def)
  have "F d1 \<noteq> 0" using F_in_dirs [OF f(2)] by (rule dir_neq_0)
  moreover have "tile_at st (x1, y1) OR d1 \<noteq> 0" using dir_neq_0 [OF f(2)] by (simp add: or_eq_0_iff)
  ultimately show ?thesis
    unfolding tile_at_connect [OF wf f(1) f(2) c] by auto
qed

lemma centre_connect:
  assumes inv: "grid_inv st poss" and mem: "(x1, y1, d1) \<in> set poss"
  shows "tile_at (connect st (x1, y1) d1) (centre st) \<noteq> 0"
proof -
  note f = move_facts [OF inv mem]
  from inv have wf: "well_formed st" and cf: "centre_first st poss" by (simp_all add: grid_inv_def)
  have obc: "on_board st (centre st)" using wf by (simp add: on_board_def centre_def well_formed_def)
  show ?thesis
  proof (cases "tile_at st (centre st) = 0")
    case True
    with cf mem have "(x1, y1) = centre st" by (auto simp: centre_first_def)
    then show ?thesis using zero_connect [OF inv mem obc] by simp
  next
    case False
    then show ?thesis using zero_connect [OF inv mem obc] by simp
  qed
qed

lemma reached_connect:
  assumes inv: "grid_inv st poss" and mem: "(x1, y1, d1) \<in> set poss" and c: "on_board st c"
  shows "reached (connect st (x1, y1) d1) c \<longleftrightarrow> reached st c \<or> c = neighbour st (x1, y1) d1"
    and "reached (connect st (x1, y1) d1) c \<longleftrightarrow> tile_at (connect st (x1, y1) d1) c \<noteq> 0"
proof -
  note f = move_facts [OF inv mem]
  show "reached (connect st (x1, y1) d1) c \<longleftrightarrow> reached st c \<or> c = neighbour st (x1, y1) d1"
    using zero_connect [OF inv mem c] f(4) by (auto simp: reached_def)
  show "reached (connect st (x1, y1) d1) c \<longleftrightarrow> tile_at (connect st (x1, y1) d1) c \<noteq> 0"
    using centre_connect [OF inv mem] by (auto simp: reached_def)
qed

lemma COUNT_connect:
  assumes inv: "grid_inv st poss" and mem: "(x1, y1, d1) \<in> set poss" and c: "on_board st c"
  shows "COUNT (tile_at (connect st (x1, y1) d1) c) =
           (if c = neighbour st (x1, y1) d1 then 1
            else if c = (x1, y1) then Suc (COUNT (tile_at st c)) else COUNT (tile_at st c))"
proof -
  note f = move_facts [OF inv mem]
  from inv have wf: "well_formed st" by (simp add: grid_inv_def)
  show ?thesis
    unfolding tile_at_connect [OF wf f(1) f(2) c]
    using COUNT_dir [OF F_in_dirs [OF f(2)]] COUNT_or_nibble [OF f(11) f(2) f(9)]
    by simp
qed

section \<open>The invariant is kept by an iteration\<close>

lemma moved_inv: "moved st poss x1 y1 d1 poss' \<Longrightarrow> grid_inv st poss"
  and moved_mem: "moved st poss x1 y1 d1 poss' \<Longrightarrow> (x1, y1, d1) \<in> set poss"
  by (simp_all add: moved_def)

lemma nibbles_connect:
  assumes "moved st poss x1 y1 d1 poss'"
  shows "nibbles (connect st (x1, y1) d1)"
proof -
  note inv = moved_inv [OF assms] and mem = moved_mem [OF assms]
  note f = move_facts [OF inv mem]
  from inv have wf: "well_formed st" and nb: "nibbles st" by (simp_all add: grid_inv_def)
  show ?thesis
    unfolding nibbles_def
  proof (intro allI impI)
    fix c assume "on_board (connect st (x1, y1) d1) c"
    then have c: "on_board st c" by simp
    have old: "tile_at st c AND 0x0F = tile_at st c" using nb c unfolding nibbles_def by blast
    show "tile_at (connect st (x1, y1) d1) c AND 0x0F = tile_at (connect st (x1, y1) d1) c"
      unfolding tile_at_connect [OF wf f(1) f(2) c]
      using nibble_dir [OF F_in_dirs [OF f(2)]] nibble_or [OF f(11) f(2)] old
      by simp
  qed
qed

lemma sym_connect:
  assumes "moved st poss x1 y1 d1 poss'"
  shows "sym (connect st (x1, y1) d1)"
proof -
  note inv = moved_inv [OF assms] and mem = moved_mem [OF assms]
  note f = move_facts [OF inv mem]
  from inv have wf: "well_formed st" and sy: "sym st" by (simp_all add: grid_inv_def)
  from wf have w: "2 < width st" "2 < height st" by (simp_all add: well_formed_def)
  let ?c1 = "(x1, y1)" and ?c2 = "neighbour st (x1, y1) d1" and ?st' = "connect st (x1, y1) d1"
  have Fd: "F d1 \<in> set dirs" using f(2) by (rule F_in_dirs)
  show ?thesis
    unfolding sym_def
  proof (intro allI impI)
    fix c d
    assume "on_board ?st' c" and d: "d \<in> set dirs" and h: "has_dir (tile_at ?st' c) d"
    then have c: "on_board st c" by simp
    from h consider (old) "has_dir (tile_at st c) d" | (c1) "c = ?c1" "d = d1" | (c2) "c = ?c2" "d = F d1"
      unfolding has_dir_connect [OF inv mem c d] by blast
    then show "\<not> off_board ?st' c d \<and> has_dir (tile_at ?st' (neighbour ?st' c d)) (F d)"
    proof cases
      case old
      with sy c d have "\<not> off_board st c d" "has_dir (tile_at st (neighbour st c d)) (F d)"
        unfolding sym_def by blast+
      then show ?thesis
        using has_dir_connect [OF inv mem neighbour_on_board [OF c d] F_in_dirs [OF d]] by simp
    next
      case c1
      then show ?thesis
        using f(3) has_dir_connect [OF inv mem f(5) Fd] by simp
    next
      case c2
      have "neighbour st ?c2 (F d1) = ?c1" using f(1) w f(2) by (rule neighbour_back)
      moreover have "off_board st ?c2 (F d1) = off_board st ?c1 d1" using f(1) w f(2) by (rule off_board_back)
      ultimately show ?thesis
        using c2 f(3) has_dir_connect [OF inv mem f(1) f(2)] F_F [OF f(2)] by simp
    qed
  qed
qed

lemma counts_connect:
  assumes "moved st poss x1 y1 d1 poss'"
  shows "counts (connect st (x1, y1) d1)"
proof -
  note inv = moved_inv [OF assms] and mem = moved_mem [OF assms]
  note f = move_facts [OF inv mem]
  from inv have cn: "counts st" by (simp add: grid_inv_def)
  show ?thesis
    unfolding counts_def
  proof (intro allI impI)
    fix c assume "on_board (connect st (x1, y1) d1) c"
    then have c: "on_board st c" by simp
    have old: "COUNT (tile_at st c) \<le> 3" using cn c unfolding counts_def by blast
    show "COUNT (tile_at (connect st (x1, y1) d1) c) \<le> 3"
      unfolding COUNT_connect [OF inv mem c] using f(10) old by auto
  qed
qed

lemma reach_on_board:
  assumes "reach st c" "well_formed st"
  shows "on_board st c"
  using assms
proof (induction rule: reach.induct)
  case reach_centre
  then show ?case by (simp add: on_board_def well_formed_def)
next
  case (reach_step c d)
  then show ?case by (simp add: neighbour_on_board)
qed

lemma reach_connect:
  assumes "reach st c" "moved st poss x1 y1 d1 poss'"
  shows "reach (connect st (x1, y1) d1) c"
  using assms
proof (induction rule: reach.induct)
  case reach_centre
  have "reach (connect st (x1, y1) d1)
          (width (connect st (x1, y1) d1) div 2, height (connect st (x1, y1) d1) div 2)"
    by (rule reach.reach_centre)
  then show ?case by simp
next
  case (reach_step c d)
  note inv = moved_inv [OF reach_step.prems] and mem = moved_mem [OF reach_step.prems]
  from inv have wf: "well_formed st" by (simp add: grid_inv_def)
  have c: "on_board st c" using reach_step.hyps(1) wf by (rule reach_on_board)
  have "reach (connect st (x1, y1) d1) (neighbour (connect st (x1, y1) d1) c d)"
  proof (rule reach.reach_step)
    show "reach (connect st (x1, y1) d1) c" using reach_step.prems by (rule reach_step.IH)
    show "d \<in> set dirs" by (rule reach_step.hyps)
    show "has_dir (tile_at (connect st (x1, y1) d1) c) d"
      using reach_step.hyps(3) has_dir_connect [OF inv mem c reach_step.hyps(2)] by simp
    show "has_dir (tile_at (connect st (x1, y1) d1) (neighbour (connect st (x1, y1) d1) c d)) (F d)"
      using reach_step.hyps(4)
        has_dir_connect [OF inv mem neighbour_on_board [OF c reach_step.hyps(2)]
          F_in_dirs [OF reach_step.hyps(2)]]
      by simp
  qed
  then show ?case by simp
qed

lemma connected_connect:
  assumes "moved st poss x1 y1 d1 poss'"
  shows "connected (connect st (x1, y1) d1)"
proof -
  note inv = moved_inv [OF assms] and mem = moved_mem [OF assms]
  note f = move_facts [OF inv mem]
  from inv have co: "connected st" by (simp add: grid_inv_def)
  let ?st' = "connect st (x1, y1) d1"
  have "reach st (x1, y1)" using co f(1) f(4) unfolding connected_def by blast
  then have r1: "reach ?st' (x1, y1)" using assms by (rule reach_connect)
  have "reach ?st' (neighbour ?st' (x1, y1) d1)"
  proof (rule reach.reach_step [OF r1 f(2)])
    show "has_dir (tile_at ?st' (x1, y1)) d1"
      using has_dir_connect [OF inv mem f(1) f(2)] by simp
    show "has_dir (tile_at ?st' (neighbour ?st' (x1, y1) d1)) (F d1)"
      using has_dir_connect [OF inv mem f(5) F_in_dirs [OF f(2)]] by simp
  qed
  then have r2: "reach ?st' (neighbour st (x1, y1) d1)" by simp
  show ?thesis
    unfolding connected_def
  proof (intro allI impI)
    fix c assume "on_board ?st' c" and r: "reached ?st' c"
    then have c: "on_board st c" by simp
    from r have "reached st c \<or> c = neighbour st (x1, y1) d1"
      unfolding reached_connect(1) [OF inv mem c] .
    then show "reach ?st' c"
    proof
      assume "reached st c"
      with co c have "reach st c" unfolding connected_def by blast
      then show ?thesis using assms by (rule reach_connect)
    next
      assume "c = neighbour st (x1, y1) d1"
      with r2 show ?thesis by simp
    qed
  qed
qed

lemma centre_first_connect:
  assumes "moved st poss x1 y1 d1 poss'"
  shows "centre_first (connect st (x1, y1) d1) poss'"
  using centre_connect [OF moved_inv [OF assms] moved_mem [OF assms]]
  by (simp add: centre_first_def)

lemma poss_ok_connect:
  assumes mv: "moved st poss x1 y1 d1 poss'"
  shows "poss_ok (connect st (x1, y1) d1) poss'"
proof -
  note inv = moved_inv [OF mv] and mem = moved_mem [OF mv]
  note f = move_facts [OF inv mem]
  from inv have wf: "well_formed st" and po: "poss_ok st poss" by (simp_all add: grid_inv_def)
  from wf have w: "2 < width st" "2 < height st" by (simp_all add: well_formed_def)
  let ?c1 = "(x1, y1)" and ?c2 = "neighbour st (x1, y1) d1" and ?st' = "connect st (x1, y1) d1"
  from mv have so: "sorted234 poss'" by (simp add: moved_def)
  have "on_board ?st' (x, y) \<and> d \<in> set dirs \<and> \<not> off_board ?st' (x, y) d \<and>
        reached ?st' (x, y) \<and> \<not> reached ?st' (neighbour ?st' (x, y) d) \<and>
        COUNT (tile_at ?st' (x, y)) \<le> 2"
    if p: "(x, y, d) \<in> set poss'" for x y d
  proof -
    from p mv consider
      (new) "(x, y) = ?c2" "d \<in> set dirs" "d \<noteq> F d1" "\<not> off_board st ?c2 d"
        "tile_at ?st' (neighbour st ?c2 d) = 0"
    | (old) "(x, y, d) \<in> set poss" "(x, y, d) \<noteq> (x1, y1, d1)"
        "COUNT (tile_at ?st' ?c1) = 3 \<longrightarrow> (x, y, d) \<noteq> (x1, y1, 0x0F XOR tile_at ?st' ?c1)"
        "(x, y, d) \<notin> pointing st ?c2 ` set dirs"
      unfolding moved_def by (auto simp: prod_eq_iff split: if_splits)
    then show ?thesis
    proof cases
      case new
      have "reached ?st' ?c2" using reached_connect(1) [OF inv mem f(5)] by simp
      moreover have "\<not> reached ?st' (neighbour st ?c2 d)"
        using reached_connect(2) [OF inv mem neighbour_on_board [OF f(5) new(2)]] new(5) by simp
      moreover have "COUNT (tile_at ?st' ?c2) \<le> 2"
        using COUNT_connect [OF inv mem f(5)] by simp
      ultimately show ?thesis using new f(5) by simp
    next
      case old
      note g = move_facts [OF inv old(1)]
      have r: "reached ?st' (x, y)" using reached_connect(1) [OF inv mem g(1)] g(4) by simp
      have ne2: "neighbour st (x, y) d \<noteq> ?c2"
      proof
        assume e: "neighbour st (x, y) d = ?c2"
        have "neighbour st (neighbour st (x, y) d) (F d) = (x, y)" using g(1) w g(2) by (rule neighbour_back)
        then have "pointing st ?c2 (F d) = (x, y, d)"
          using e F_F [OF g(2)] by (simp add: pointing_def)
        then have "(x, y, d) \<in> pointing st ?c2 ` set dirs"
          using F_in_dirs [OF g(2)] by (metis imageI)
        with old(4) show False by simp
      qed
      have nr: "\<not> reached ?st' (neighbour st (x, y) d)"
        using reached_connect(1) [OF inv mem g(5)] g(6) g(7) ne2 by (simp add: reached_def)
      have xy2: "(x, y) \<noteq> ?c2" using g(4) f(6) f(7) by (auto simp: reached_def)
      have cnt: "COUNT (tile_at ?st' (x, y)) \<le> 2"
      proof (cases "(x, y) = ?c1")
        case False
        then have "COUNT (tile_at ?st' (x, y)) = COUNT (tile_at st (x, y))"
          unfolding COUNT_connect [OF inv mem g(1)] using xy2 by simp
        then show ?thesis using g(10) by simp
      next
        case True
        show ?thesis
        proof (rule ccontr)
          assume "\<not> COUNT (tile_at ?st' (x, y)) \<le> 2"
          moreover have "COUNT (tile_at ?st' (x, y)) \<le> 3"
            using counts_connect [OF mv] g(1) by (simp add: counts_def)
          ultimately have c3: "COUNT (tile_at ?st' ?c1) = 3" using True by simp
          with old(3) True have "d \<noteq> 0x0F XOR tile_at ?st' ?c1" by simp
          moreover have "tile_at ?st' ?c1 AND 0x0F = tile_at ?st' ?c1"
            using nibbles_connect [OF mv] f(1) by (simp add: nibbles_def)
          ultimately have "has_dir (tile_at ?st' ?c1) d" using c3 g(2) by (intro T_piece_has)
          then have "has_dir (tile_at st ?c1) d \<or> d = d1"
            unfolding has_dir_connect [OF inv mem f(1) g(2)] using f(8) by auto
          with g(9) True old(2) show False by simp
        qed
      qed
      show ?thesis using g(1) g(2) g(3) r nr cnt by simp
    qed
  qed
  then have "\<forall>(x, y, d) \<in> set poss'.
        on_board ?st' (x, y) \<and> d \<in> set dirs \<and> \<not> off_board ?st' (x, y) d \<and>
        reached ?st' (x, y) \<and> \<not> reached ?st' (neighbour ?st' (x, y) d) \<and>
        COUNT (tile_at ?st' (x, y)) \<le> 2" by blast
  with so show ?thesis unfolding poss_ok_def by (rule conjI)
qed

lemma frontier_connect:
  assumes mv: "moved st poss x1 y1 d1 poss'"
  shows "frontier (connect st (x1, y1) d1) poss'"
proof -
  note inv = moved_inv [OF mv] and mem = moved_mem [OF mv]
  note f = move_facts [OF inv mem]
  from inv have wf: "well_formed st" and fr: "frontier st poss" by (simp_all add: grid_inv_def)
  from wf have w: "2 < width st" "2 < height st" by (simp_all add: well_formed_def)
  let ?c1 = "(x1, y1)" and ?c2 = "neighbour st (x1, y1) d1" and ?st' = "connect st (x1, y1) d1"
  have r2: "reached ?st' ?c2" using reached_connect(1) [OF inv mem f(5)] by simp
  have r1: "reached ?st' ?c1" using reached_connect(1) [OF inv mem f(1)] f(4) by simp
  show ?thesis
    unfolding frontier_def
  proof (intro allI impI)
    fix c d
    assume "on_board ?st' c" and r: "reached ?st' c" and d: "d \<in> set dirs"
      and "\<not> off_board ?st' c d" and "\<not> reached ?st' (neighbour ?st' c d)"
    then have c: "on_board st c" and nob: "\<not> off_board st c d"
      and nr: "\<not> reached ?st' (neighbour st c d)" by simp_all
    have obn: "on_board st (neighbour st c d)" using c d by (rule neighbour_on_board)
    show "(fst c, snd c, d) \<in> set poss' \<or> COUNT (tile_at ?st' c) = 3"
    proof (cases "c = ?c2")
      case True
      have "tile_at ?st' (neighbour st ?c2 d) = 0"
        using nr reached_connect(2) [OF inv mem obn] True by simp
      moreover have "d \<noteq> F d1"
      proof
        assume "d = F d1"
        moreover have "neighbour st ?c2 (F d1) = ?c1" using f(1) w f(2) by (rule neighbour_back)
        ultimately show False using nr r1 True by simp
      qed
      ultimately have "(fst ?c2, snd ?c2, d) \<in> set poss'"
        using mv d nob True unfolding moved_def by blast
      then show ?thesis using True by simp
    next
      case False
      then have rc: "reached st c" using r reached_connect(1) [OF inv mem c] by simp
      have nrn: "\<not> reached st (neighbour st c d)" and ne2: "neighbour st c d \<noteq> ?c2"
        using nr reached_connect(1) [OF inv mem obn] by simp_all
      from fr c rc d nob nrn have "(fst c, snd c, d) \<in> set poss \<or> COUNT (tile_at st c) = 3"
        unfolding frontier_def by blast
      then show ?thesis
      proof
        assume c3: "COUNT (tile_at st c) = 3"
        with f(10) have "c \<noteq> ?c1" by auto
        then show ?thesis using COUNT_connect [OF inv mem c] False c3 by simp
      next
        assume p: "(fst c, snd c, d) \<in> set poss"
        have n1: "(fst c, snd c, d) \<noteq> (x1, y1, d1)"
        proof
          assume "(fst c, snd c, d) = (x1, y1, d1)"
          then have "c = ?c1" "d = d1" by (auto simp: prod_eq_iff)
          with ne2 show False by simp
        qed
        have n2: "(fst c, snd c, d) \<notin> pointing st ?c2 ` set dirs"
        proof
          assume "(fst c, snd c, d) \<in> pointing st ?c2 ` set dirs"
          then obtain e where e: "e \<in> set dirs" "c = neighbour st ?c2 e" "d = F e"
            by (auto simp: pointing_def prod_eq_iff)
          have "neighbour st (neighbour st ?c2 e) (F e) = ?c2" using f(5) w e(1) by (rule neighbour_back)
          with e ne2 show False by simp
        qed
        show ?thesis
        proof (cases "COUNT (tile_at ?st' ?c1) = 3 \<and> (fst c, snd c, d) = (x1, y1, 0x0F XOR tile_at ?st' ?c1)")
          case True
          then have "c = ?c1" by (auto simp: prod_eq_iff)
          with True show ?thesis by simp
        next
          case nt: False
          with p n1 n2 mv have "(fst c, snd c, d) \<in> set poss'"
            unfolding moved_def by (auto split: if_splits)
          then show ?thesis by simp
        qed
      qed
    qed
  qed
qed

lemma grid_inv_connect:
  assumes "moved st poss x1 y1 d1 poss'"
  shows "grid_inv (connect st (x1, y1) d1) poss'"
  unfolding grid_inv_def
  using assms nibbles_connect [OF assms] poss_ok_connect [OF assms] sym_connect [OF assms]
    counts_connect [OF assms] frontier_connect [OF assms] centre_first_connect [OF assms]
    connected_connect [OF assms] moved_inv [OF assms]
  by (simp add: grid_inv_def)

text \<open>An iteration that returns keeps the invariant.\<close>

lemma grid_step_moved:
  assumes inv: "grid_inv st poss" and step: "grid_step ru st poss rs = Inr (st', poss', rs')"
  obtains x1 y1 d1 where "moved st poss x1 y1 d1 poss'" "st' = connect st (x1, y1) d1"
proof -
  from inv have wf: "well_formed st" and po: "poss_ok st poss" by (simp_all add: grid_inv_def)
  from po have so: "sorted234 poss"
    and ob: "\<forall>(x, y, d) \<in> set poss. on_board st (x, y) \<and> d \<in> set dirs"
    by (auto simp: poss_ok_def)
  from wf so ob step obtain x1 y1 d1 where
    "(x1, y1, d1) \<in> set poss"
    "tile_at st (neighbour st (x1, y1) d1) = 0 \<or> neighbour st (x1, y1) d1 = (x1, y1)"
    "st' = connect st (x1, y1) d1" "sorted234 poss'"
    "set poss' =
       (set poss - {(x1, y1, d1)}
          - (if COUNT (tile_at st' (x1, y1)) = 3 then {(x1, y1, 0x0F XOR tile_at st' (x1, y1))} else {})
          - pointing st (neighbour st (x1, y1) d1) ` set dirs)
       \<union> {(fst (neighbour st (x1, y1) d1), snd (neighbour st (x1, y1) d1), d) | d.
            d \<in> set dirs \<and> d \<noteq> F d1 \<and> \<not> off_board st (neighbour st (x1, y1) d1) d \<and>
            tile_at st' (neighbour st (neighbour st (x1, y1) d1) d) = 0}"
    by (rule grid_step_char)
  with inv have "moved st poss x1 y1 d1 poss'" unfolding moved_def by simp
  then show thesis using \<open>st' = connect st (x1, y1) d1\<close> by (rule that)
qed

lemma grid_step_inv:
  assumes "grid_inv st poss" "grid_step ru st poss rs = Inr (st', poss', rs')"
  shows "grid_inv st' poss'"
proof -
  from assms obtain x1 y1 d1 where "moved st poss x1 y1 d1 poss'" "st' = connect st (x1, y1) d1"
    by (rule grid_step_moved)
  then show ?thesis by (simp add: grid_inv_connect)
qed

section \<open>No loops: the order in which the cells are reached\<close>

lemma ranked_connect:
  assumes mv: "moved st poss x1 y1 d1 poss'" and rk: "ranked st rk n"
  shows "ranked (connect st (x1, y1) d1) (rk (neighbour st (x1, y1) d1 := n)) (Suc n)"
proof -
  note inv = moved_inv [OF mv] and mem = moved_mem [OF mv]
  note f = move_facts [OF inv mem]
  from inv have wf: "well_formed st" and sy: "sym st" by (simp_all add: grid_inv_def)
  let ?c1 = "(x1, y1)" and ?c2 = "neighbour st (x1, y1) d1" and ?st' = "connect st (x1, y1) d1"
  let ?rk = "rk (?c2 := n)"
  from rk have bound: "\<And>c. on_board st c \<Longrightarrow> reached st c \<Longrightarrow> rk c < n"
    and inj: "\<And>c c'. on_board st c \<Longrightarrow> on_board st c' \<Longrightarrow> reached st c \<Longrightarrow> reached st c' \<Longrightarrow>
         rk c = rk c' \<Longrightarrow> c = c'"
    and par: "\<And>c d e. on_board st c \<Longrightarrow> d \<in> set dirs \<Longrightarrow> e \<in> set dirs \<Longrightarrow>
         has_dir (tile_at st c) d \<Longrightarrow> has_dir (tile_at st c) e \<Longrightarrow>
         rk (neighbour st c d) < rk c \<Longrightarrow> rk (neighbour st c e) < rk c \<Longrightarrow> d = e"
    unfolding ranked_def by blast+
  have a: "?rk c < Suc n" if "on_board st c" "reached ?st' c" for c
  proof (cases "c = ?c2")
    case False
    with that have "reached st c" using reached_connect(1) [OF inv mem that(1)] by simp
    then have "rk c < n" using that(1) by (intro bound)
    with False show ?thesis by simp
  qed simp
  have b: "c = c'" if "on_board st c" "on_board st c'" "reached ?st' c" "reached ?st' c'"
    "?rk c = ?rk c'" for c c'
  proof -
    have r: "reached st c" if "c \<noteq> ?c2" "on_board st c" "reached ?st' c" for c
      using that reached_connect(1) [OF inv mem that(2)] by simp
    show ?thesis
    proof (cases "c = ?c2"; cases "c' = ?c2")
      assume "c \<noteq> ?c2" "c' \<noteq> ?c2"
      then show ?thesis using that r inj by simp
    next
      assume h: "c = ?c2" "c' \<noteq> ?c2"
      then have "reached st c'" using that(2,4) by (intro r)
      then have "rk c' < n" using that(2) by (intro bound)
      moreover have "rk c' = n" using h that(5) by simp
      ultimately show ?thesis by simp
    next
      assume h: "c \<noteq> ?c2" "c' = ?c2"
      then have "reached st c" using that(1,3) by (intro r)
      then have "rk c < n" using that(1) by (intro bound)
      moreover have "rk c = n" using h that(5) by simp
      ultimately show ?thesis by simp
    qed simp
  qed
  have old_dir: "has_dir (tile_at st c) d \<and> neighbour st c d \<noteq> ?c2"
    if c: "on_board st c" and ne: "c \<noteq> ?c2" and d: "d \<in> set dirs"
      and h: "has_dir (tile_at ?st' c) d" and lt: "?rk (neighbour st c d) < ?rk c" for c d
  proof -
    have rc: "reached st c"
    proof -
      from h have "tile_at ?st' c \<noteq> 0" by (rule has_dir_nonzero)
      then have "reached ?st' c" by (simp add: reached_def)
      with ne show ?thesis using reached_connect(1) [OF inv mem c] by simp
    qed
    have n2: "neighbour st c d \<noteq> ?c2"
    proof
      assume "neighbour st c d = ?c2"
      with lt ne have "n < rk c" by simp
      moreover have "rk c < n" using c rc by (rule bound)
      ultimately show False by simp
    qed
    from h have "has_dir (tile_at st c) d \<or> c = ?c1 \<and> d = d1"
      unfolding has_dir_connect [OF inv mem c d] using ne by simp
    with n2 show ?thesis by auto
  qed
  have c: "d = e" if c: "on_board st c" and d: "d \<in> set dirs" and e: "e \<in> set dirs"
    and hd: "has_dir (tile_at ?st' c) d" and he: "has_dir (tile_at ?st' c) e"
    and ld: "?rk (neighbour st c d) < ?rk c" and le: "?rk (neighbour st c e) < ?rk c" for c d e
  proof (cases "c = ?c2")
    case True
    from hd he have "d = F d1" "e = F d1"
      unfolding has_dir_connect [OF inv mem c d] has_dir_connect [OF inv mem c e]
      using True f(6) f(8) by auto
    then show ?thesis by simp
  next
    case False
    from old_dir [OF c False d hd ld] old_dir [OF c False e he le] ld le False
    show ?thesis using par [OF c d e] by simp
  qed
  show ?thesis unfolding ranked_def using a b c by simp
qed

text \<open>A predicate that holds at the centre and is passed on to neighbours holds everywhere.\<close>

lemma board_connected:
  assumes wf: "well_formed st" and start: "pr (centre st)"
    and pass: "\<And>c d. on_board st c \<Longrightarrow> pr c \<Longrightarrow> d \<in> set dirs \<Longrightarrow> \<not> off_board st c d \<Longrightarrow>
                 pr (neighbour st c d)"
    and u: "on_board st u"
  shows "pr u"
proof -
  have right: "pr (Suc x, y)" if "pr (x, y)" "Suc x < width st" "y < height st" for x y
  proof -
    have ob: "on_board st (x, y)" using that by (simp add: on_board_def)
    have "pr (neighbour st (x, y) 1)"
      using ob that by (intro pass) (auto simp: dirs_def off_board_values)
    moreover have "neighbour st (x, y) 1 = (Suc x, y)"
      using that by (auto simp: neighbour_R [OF ob])
    ultimately show ?thesis by simp
  qed
  have left: "pr (x, y)" if "pr (Suc x, y)" "Suc x < width st" "y < height st" for x y
  proof -
    have ob: "on_board st (Suc x, y)" using that by (simp add: on_board_def)
    have "pr (neighbour st (Suc x, y) 4)"
      using ob that by (intro pass) (auto simp: dirs_def off_board_values)
    then show ?thesis by (simp add: neighbour_L [OF ob])
  qed
  have down: "pr (x, Suc y)" if "pr (x, y)" "x < width st" "Suc y < height st" for x y
  proof -
    have ob: "on_board st (x, y)" using that by (simp add: on_board_def)
    have "pr (neighbour st (x, y) 8)"
      using ob that by (intro pass) (auto simp: dirs_def off_board_values)
    moreover have "neighbour st (x, y) 8 = (x, Suc y)"
      using that by (auto simp: neighbour_D [OF ob])
    ultimately show ?thesis by simp
  qed
  have up: "pr (x, y)" if "pr (x, Suc y)" "x < width st" "Suc y < height st" for x y
  proof -
    have ob: "on_board st (x, Suc y)" using that by (simp add: on_board_def)
    have "pr (neighbour st (x, Suc y) 2)"
      using ob that by (intro pass) (auto simp: dirs_def off_board_values)
    then show ?thesis by (simp add: neighbour_U [OF ob])
  qed
  have row: "pr (x, y) \<longleftrightarrow> pr (0, y)" if "x < width st" "y < height st" for x y
    using that
  proof (induction x)
    case 0
    then show ?case by simp
  next
    case (Suc x)
    then have "pr (Suc x, y) \<longleftrightarrow> pr (x, y)" using left right by blast
    with Suc show ?case by simp
  qed
  have col: "pr (x, y) \<longleftrightarrow> pr (x, 0)" if "x < width st" "y < height st" for x y
    using that
  proof (induction y)
    case 0
    then show ?case by simp
  next
    case (Suc y)
    then have "pr (x, Suc y) \<longleftrightarrow> pr (x, y)" using up down by blast
    with Suc show ?case by simp
  qed
  from wf have c: "width st div 2 < width st" "height st div 2 < height st" "0 < width st" "0 < height st"
    by (simp_all add: well_formed_def)
  have "pr (0, height st div 2)" using start row [OF c(1,2)] by (simp add: centre_def)
  then have z: "pr (0, 0)" using col [OF c(3) c(2)] by simp
  obtain x y where xy: "u = (x, y)" by (cases u)
  with u have b: "x < width st" "y < height st" by (simp_all add: on_board_def)
  have "pr (x, 0)" using z row [OF b(1) c(4)] by simp
  then show ?thesis using col [OF b] xy by simp
qed

section \<open>No unreached cell is left when the candidate set is empty\<close>

lemma perpendicular: "d \<in> set dirs \<Longrightarrow> \<exists>e \<in> set dirs. e \<noteq> d \<and> e \<noteq> F d"
  by (auto dest!: dirs_cases simp: F_values dirs_def)

lemma perpendicular_flip:
  assumes "d \<in> set dirs" "e \<in> set dirs" "e \<noteq> d" "e \<noteq> F d"
  shows "F e \<noteq> d" "F e \<noteq> F d" "d \<noteq> F e"
  using assms by (auto dest!: dirs_cases simp: F_values)

text \<open>
  A reached cell next to an unreached cell is a T-piece pointing away from it: it contains
  every other direction.
\<close>

lemma T_piece_at_border:
  assumes inv: "grid_inv st []" and b: "on_board st b" and rb: "reached st b"
    and d: "d \<in> set dirs" and nob: "\<not> off_board st b d" and nr: "\<not> reached st (neighbour st b d)"
    and e: "e \<in> set dirs" and ne: "e \<noteq> d"
  shows "has_dir (tile_at st b) e" "\<not> has_dir (tile_at st b) d"
proof -
  from inv have fr: "frontier st []" and sy: "sym st" and nb: "nibbles st" by (simp_all add: grid_inv_def)
  from fr b rb d nob nr have c3: "COUNT (tile_at st b) = 3" unfolding frontier_def by fastforce
  have nib: "tile_at st b AND 0x0F = tile_at st b" using nb b unfolding nibbles_def by blast
  show nd: "\<not> has_dir (tile_at st b) d"
  proof
    assume "has_dir (tile_at st b) d"
    with sy b d have "has_dir (tile_at st (neighbour st b d)) (F d)" unfolding sym_def by blast
    then have "tile_at st (neighbour st b d) \<noteq> 0" by (rule has_dir_nonzero)
    with nr show False by (simp add: reached_def)
  qed
  have "d = 0x0F XOR tile_at st b" using nib c3 d nd by (rule T_piece_unique)
  with ne have "e \<noteq> 0x0F XOR tile_at st b" by simp
  with nib c3 e show "has_dir (tile_at st b) e" by (intro T_piece_has)
qed

lemma all_reached:
  assumes inv: "grid_inv st []" and rk: "ranked st rk n" and u: "on_board st u"
  shows "reached st u"
proof (rule ccontr)
  assume nu: "\<not> reached st u"
  from inv have wf: "well_formed st" and sy: "sym st" by (simp_all add: grid_inv_def)
  from wf have w: "2 < width st" "2 < height st" by (simp_all add: well_formed_def)
  from rk have inj: "\<And>c c'. on_board st c \<Longrightarrow> on_board st c' \<Longrightarrow> reached st c \<Longrightarrow> reached st c' \<Longrightarrow>
         rk c = rk c' \<Longrightarrow> c = c'"
    and par: "\<And>c d e. on_board st c \<Longrightarrow> d \<in> set dirs \<Longrightarrow> e \<in> set dirs \<Longrightarrow>
         has_dir (tile_at st c) d \<Longrightarrow> has_dir (tile_at st c) e \<Longrightarrow>
         rk (neighbour st c d) < rk c \<Longrightarrow> rk (neighbour st c e) < rk c \<Longrightarrow> d = e"
    unfolding ranked_def by blast+
  define border where "border = {c. on_board st c \<and> reached st c \<and>
    (\<exists>d \<in> set dirs. \<not> off_board st c d \<and> \<not> reached st (neighbour st c d))}"
  have ne: "border \<noteq> {}"
  proof
    assume em: "border = {}"
    have "reached st u"
    proof (rule board_connected [OF wf _ _ u])
      show "reached st (centre st)" by (simp add: reached_def)
    next
      fix c d
      assume "on_board st c" "reached st c" "d \<in> set dirs" "\<not> off_board st c d"
      with em show "reached st (neighbour st c d)" unfolding border_def by blast
    qed
    with nu show False by simp
  qed
  have "border \<subseteq> {..<width st} \<times> {..<height st}"
    by (auto simp: border_def on_board_def)
  then have fin: "finite border" by (rule finite_subset) simp
  define m where "m = Max (rk ` border)"
  have "m \<in> rk ` border" unfolding m_def using fin ne by (intro Max_in) simp_all
  then obtain b where bb: "b \<in> border" and bm: "rk b = m" by auto
  have mx: "rk c \<le> rk b" if "c \<in> border" for c
    unfolding bm m_def using fin that by (intro Max_ge) simp_all
  from bb obtain d where b: "on_board st b" and rb: "reached st b" and d: "d \<in> set dirs"
    and nob: "\<not> off_board st b d" and nr: "\<not> reached st (neighbour st b d)"
    unfolding border_def by blast
  let ?u = "neighbour st b d"
  have obu: "on_board st ?u" using b d by (rule neighbour_on_board)
  from perpendicular [OF d] obtain e0 where e0: "e0 \<in> set dirs" "e0 \<noteq> d" "e0 \<noteq> F d" by blast
  note pf = perpendicular_flip [OF d e0]
  have Fe0: "F e0 \<in> set dirs" using e0(1) by (rule F_in_dirs)
  have h0: "has_dir (tile_at st b) e0" "has_dir (tile_at st b) (F e0)"
    using T_piece_at_border [OF inv b rb d nob nr] e0 Fe0 pf by simp_all
  have "\<not> (rk (neighbour st b e0) < rk b \<and> rk (neighbour st b (F e0)) < rk b)"
    using par [OF b e0(1) Fe0 h0] F_neq [OF e0(1)] by auto
  then obtain e where e: "e \<in> set dirs" "e \<noteq> d" "e \<noteq> F d" and he: "has_dir (tile_at st b) e"
    and nlt: "\<not> rk (neighbour st b e) < rk b"
    using e0 Fe0 pf h0 by blast
  note pe = perpendicular_flip [OF d e]
  have Fe: "F e \<in> set dirs" using e(1) by (rule F_in_dirs)
  have Fd: "F d \<in> set dirs" using d by (rule F_in_dirs)
  let ?s = "neighbour st b e"
  have obs: "on_board st ?s" using b e(1) by (rule neighbour_on_board)
  from sy b e(1) he have nobe: "\<not> off_board st b e" and hs: "has_dir (tile_at st ?s) (F e)"
    unfolding sym_def by blast+
  have rs: "reached st ?s" using has_dir_nonzero [OF hs] by (simp add: reached_def)
  have "?s \<noteq> b" using b w e(1) by (rule neighbour_neq)
  then have "rk ?s \<noteq> rk b" using inj [OF obs b rs rb] by blast
  with nlt have lt: "rk b < rk ?s" by simp
  let ?c = "neighbour st ?s d"
  have cu: "?c = neighbour st ?u e" using b w e(1) d by (rule neighbour_comm)
  have obc: "on_board st ?c" using obs d by (rule neighbour_on_board)
  have nobs: "\<not> off_board st ?s d"
    using off_board_side [OF b d e(1) e(2) e(3)] nob by simp
  have rc: "reached st ?c"
  proof (rule ccontr)
    assume "\<not> reached st ?c"
    with obs rs d nobs have "?s \<in> border" unfolding border_def by blast
    then have "rk ?s \<le> rk b" by (rule mx)
    with lt show False by simp
  qed
  have bk: "neighbour st ?c (F e) = ?u"
    unfolding cu using obu w e(1) by (rule neighbour_back)
  have "off_board st ?c (F e) = off_board st ?u e"
    unfolding cu using obu w e(1) by (rule off_board_back)
  also have "\<dots> = off_board st b e"
    using b e(1) d pe(3) by (intro off_board_side) (simp_all add: e(2) [symmetric])
  finally have nobc: "\<not> off_board st ?c (F e)" using nobe by simp
  have nrc: "\<not> reached st (neighbour st ?c (F e))" using nr bk by simp
  have "?c \<in> border" using obc rc Fe nobc nrc unfolding border_def by blast
  then have "rk ?c \<le> rk b" by (rule mx)
  with lt have ltc: "rk ?c < rk ?s" by simp
  have "has_dir (tile_at st ?c) (F d)"
    using T_piece_at_border(1) [OF inv obc rc Fe nobc nrc Fd] pe(2) by auto
  with sy obc Fd have "has_dir (tile_at st (neighbour st ?c (F d))) (F (F d))"
    unfolding sym_def by blast
  moreover have "neighbour st ?c (F d) = ?s" using obs w d by (rule neighbour_back)
  ultimately have hsd: "has_dir (tile_at st ?s) d" using F_F [OF d] by simp
  have "neighbour st ?s (F e) = b" using b w e(1) by (rule neighbour_back)
  with lt have "rk (neighbour st ?s (F e)) < rk ?s" by simp
  with par [OF obs d Fe hsd hs] ltc have "d = F e" by simp
  with pe(3) show False by simp
qed

section \<open>The grid loop as a whole\<close>

lemma grid_step_full_inv:
  assumes "full_inv st poss" "grid_step ru st poss rs = Inr (st', poss', rs')"
  shows "full_inv st' poss'"
proof -
  from assms(1) obtain rk n where inv: "grid_inv st poss" and rk: "ranked st rk n"
    unfolding full_inv_def by blast
  from inv assms(2) obtain x1 y1 d1 where mv: "moved st poss x1 y1 d1 poss'"
    and st': "st' = connect st (x1, y1) d1"
    by (rule grid_step_moved)
  from ranked_connect [OF mv rk] grid_inv_connect [OF mv] show ?thesis
    unfolding full_inv_def st' by blast
qed

lemma grid_loop_full_inv:
  assumes "full_inv st poss" "grid_loop ru st poss rs = Inr (st', rs')"
  shows "full_inv st' []"
  using assms
proof (induction ru st poss rs rule: grid_loop.induct)
  case (1 ru st poss rs)
  show ?case
  proof (cases "count234 poss > 0")
    case False
    then have "poss = []" by (simp add: count234_def)
    moreover from "1.prems"(2) False have "st' = st"
      unfolding grid_loop.simps [of ru st poss rs] by simp
    ultimately show ?thesis using "1.prems"(1) by simp
  next
    case True
    with "1.prems"(2) obtain st1 poss1 rs1 where
      s: "grid_step ru st poss rs = Inr (st1, poss1, rs1)" and
      l: "grid_loop ru st1 poss1 rs1 = Inr (st', rs')"
      unfolding grid_loop.simps [of ru st poss rs] by (auto split: sum.splits)
    have "full_inv st1 poss1" using "1.prems"(1) s by (rule grid_step_full_inv)
    from "1.IH" [OF True s refl refl this l] show ?thesis .
  qed
qed

text \<open>Under the invariant an iteration fails no assertion and stays inside the arrays.\<close>

lemma grid_step_returns:
  assumes inv: "grid_inv st poss" and ne: "0 < count234 poss" and dr: "draws_in_range ru"
  shows "\<exists>r. grid_step ru st poss rs = Inr r"
proof -
  from inv have wf: "well_formed st" and po: "poss_ok st poss" by (simp_all add: grid_inv_def)
  from po have so: "sorted234 poss" by (simp add: poss_ok_def)
  from wf have len: "length (tiles st) = width st * height st" by (simp add: well_formed_def)
  obtain i rs1 where ru: "ru rs (count234 poss) = (i, rs1)" by (cases "ru rs (count234 poss)")
  with dr ne have i: "i < length poss" unfolding draws_in_range_def count234_def
    by (metis fst_conv)
  obtain x1 y1 d1 where p: "poss ! i = (x1, y1, d1)" by (cases "poss ! i")
  let ?poss1 = "take i poss @ drop (Suc i) poss"
  have dp: "delpos234 poss i = Some ((x1, y1, d1), ?poss1)" using i p by (simp add: delpos234_def)
  have mem: "(x1, y1, d1) \<in> set poss" using i p by (metis nth_mem)
  note f = move_facts [OF inv mem]
  let ?c1 = "(x1, y1)"
  obtain x2 y2 where c2: "neighbour st ?c1 d1 = (x2, y2)" by (cases "neighbour st ?c1 d1")
  then have off: "OFFSET x1 y1 d1 st = (x2, y2)" by (simp add: neighbour_def)
  let ?st1 = "st\<lparr>tiles := (tiles st)[cell_idx st ?c1 := tile_at st ?c1 OR d1]\<rparr>"
  have i1: "cell_idx st ?c1 < length (tiles st)" using idx_less [OF f(1)] len by (simp add: cell_idx_def)
  have i2: "cell_idx st (x2, y2) < length (tiles st)"
    using idx_less [OF f(5)] len c2 by (simp add: cell_idx_def)
  have s1: "or_tile st x1 y1 d1 = Inr ?st1"
    using i1 by (simp add: or_tile_Inr cell_idx_def tile_at_def)
  have "cell_idx st (x2, y2) \<noteq> cell_idx st ?c1"
    using idx_inj [OF f(5) f(1)] f(8) c2 by (auto simp: cell_idx_def)
  then have z: "tiles ?st1 ! cell_idx st (x2, y2) = 0"
    using f(6) c2 by (simp add: tile_at_def cell_idx_def)
  have t2: "tile ?st1 x2 y2 = Inr 0"
    using i2 z by (simp add: tile_Inr cell_idx_def)
  let ?st2 = "connect st ?c1 d1"
  have s2: "or_tile ?st1 x2 y2 (F d1) = Inr ?st2"
    using i2 z by (simp add: or_tile_Inr connect_def c2 cell_idx_def)
  have t1: "tile ?st2 x1 y1 = Inr (tile_at ?st2 ?c1)"
    using i1 by (simp add: tile_Inr tile_at_def cell_idx_def)
  let ?p2 = "if COUNT (tile_at ?st2 ?c1) = 3
             then remove_if_found ?poss1 (x1, y1, 0x0F XOR tile_at ?st2 ?c1) else ?poss1"
  have so1: "sorted234 ?poss1" using delpos234_Some(3) [OF dp so] .
  have so2: "sorted234 ?p2" using so1 by (simp add: remove_if_found_eq sorted234_remove1)
  have so3: "sorted234 (remove_pointing ?st2 x2 y2 dirs ?p2)"
    using remove_pointing_eq [OF so2] by blast
  have len2: "length (tiles ?st2) = width ?st2 * height ?st2" using len by simp
  have ob2: "on_board ?st2 (x2, y2)" using f(5) c2 by simp
  from add_frontier_eq [OF so3 len2 ob2 subset_refl, of "F d1"]
  obtain poss4 where af: "add_frontier ?st2 x2 y2 (F d1) dirs (remove_pointing ?st2 x2 y2 dirs ?p2) = Inr poss4"
    by blast
  have "grid_step ru st poss rs = Inr (?st2, poss4, rs1)"
    unfolding grid_step_def using ru dp off s1 t2 s2 t1 af
    by (simp add: Let_def)
  then show ?thesis by blast
qed

lemma grid_loop_returns:
  assumes "full_inv st poss" "draws_in_range ru"
  shows "\<exists>r. grid_loop ru st poss rs = Inr r"
  using assms
proof (induction ru st poss rs rule: grid_loop.induct)
  case (1 ru st poss rs)
  show ?case
  proof (cases "count234 poss > 0")
    case False
    then show ?thesis unfolding grid_loop.simps [of ru st poss rs] by simp
  next
    case True
    from "1.prems"(1) have inv: "grid_inv st poss" by (simp add: full_inv_def)
    from grid_step_returns [OF inv True "1.prems"(2)]
    obtain st1 poss1 rs1 where s: "grid_step ru st poss rs = Inr (st1, poss1, rs1)"
      by (metis prod_cases3)
    have "full_inv st1 poss1" using "1.prems"(1) s by (rule grid_step_full_inv)
    from "1.IH" [OF True s refl refl this "1.prems"(2)]
    show ?thesis unfolding grid_loop.simps [of ru st poss rs] using True s by simp
  qed
qed

lemma grid_loop_fields:
  assumes "grid_inv st poss" "grid_loop ru st poss rs = Inr (g, rs')"
  shows "width g = width st \<and> height g = height st \<and> wrapping g = wrapping st \<and>
         barriers g = barriers st"
  using assms
proof (induction ru st poss rs rule: grid_loop.induct)
  case (1 ru st poss rs)
  show ?case
  proof (cases "count234 poss > 0")
    case False
    with "1.prems"(2) show ?thesis
      unfolding grid_loop.simps [of ru st poss rs] by simp
  next
    case True
    with "1.prems"(2) obtain st1 poss1 rs1 where
      s: "grid_step ru st poss rs = Inr (st1, poss1, rs1)" and
      l: "grid_loop ru st1 poss1 rs1 = Inr (g, rs')"
      unfolding grid_loop.simps [of ru st poss rs] by (auto split: sum.splits)
    from "1.prems"(1) s obtain x1 y1 d1 where "st1 = connect st (x1, y1) d1"
      by (rule grid_step_moved)
    moreover have "grid_inv st1 poss1" using "1.prems"(1) s by (rule grid_step_inv)
    ultimately show ?thesis using "1.IH" [OF True s refl refl _ l] by simp
  qed
qed

section \<open>The unshuffled grid\<close>

lemma or_barrier_fields:
  "or_barrier st x y v = Inr st' \<Longrightarrow>
     tiles st' = tiles st \<and> width st' = width st \<and> height st' = height st \<and>
     wrapping st' = wrapping st"
  by (auto simp: or_barrier_Inr)

lemma border_x_loop_fields:
  "border_x_loop xs st = Inr st' \<Longrightarrow>
     tiles st' = tiles st \<and> width st' = width st \<and> height st' = height st \<and>
     wrapping st' = wrapping st"
proof (induction xs arbitrary: st)
  case Nil
  then show ?case by simp
next
  case (Cons x xs)
  from Cons.prems obtain st1 st2 where
    a: "or_barrier st x 0 U = Inr st1" and b: "or_barrier st1 x (height st1 - 1) D = Inr st2"
    and c: "border_x_loop xs st2 = Inr st'"
    by (auto simp: ebind_Inr)
  from or_barrier_fields [OF a] or_barrier_fields [OF b] Cons.IH [OF c] show ?case by simp
qed

lemma border_y_loop_fields:
  "border_y_loop ys st = Inr st' \<Longrightarrow>
     tiles st' = tiles st \<and> width st' = width st \<and> height st' = height st \<and>
     wrapping st' = wrapping st"
proof (induction ys arbitrary: st)
  case Nil
  then show ?case by simp
next
  case (Cons y ys)
  from Cons.prems obtain st1 st2 where
    a: "or_barrier st y 0 L = Inr st1" and b: "or_barrier st1 y (width st1 - 1) R = Inr st2"
    and c: "border_y_loop ys st2 = Inr st'"
    by (auto simp: ebind_Inr)
  from or_barrier_fields [OF a] or_barrier_fields [OF b] Cons.IH [OF c] show ?case by simp
qed

lemma border_barriers_fields:
  assumes "border_barriers st = Inr st'"
  shows "tiles st' = tiles st \<and> width st' = width st \<and> height st' = height st \<and>
     wrapping st' = wrapping st"
proof (cases "wrapping st")
  case True
  with assms show ?thesis by (simp add: border_barriers_def)
next
  case False
  with assms obtain st1 where a: "border_x_loop [0..<width st] st = Inr st1"
    and b: "border_y_loop [0..<height st1] st1 = Inr st'"
    by (auto simp: border_barriers_def ebind_Inr)
  from border_x_loop_fields [OF a] border_y_loop_fields [OF b] show ?thesis by simp
qed

lemma blank_after_border:
  assumes "2 < p_width params" "2 < p_height params"
    "border_barriers (blank_state params) = Inr st1"
  shows "blank_tiles st1"
proof -
  have "2 < nat (p_width params)" "2 < nat (p_height params)" using assms(1,2) by linarith+
  then show ?thesis
    using border_barriers_fields [OF assms(3)]
    by (simp add: blank_tiles_def well_formed_def blank_state_def)
qed

lemma unshuffled_grid_eq: "unshuffled_grid ru st rs = grid_loop ru st (start_poss st) rs"
  by (simp add: unshuffled_grid_def start_poss_def Let_def)

lemma start_full_inv:
  assumes bl: "blank_tiles st"
  shows "full_inv st (start_poss st)"
proof -
  from bl have wf: "well_formed st" by (simp add: blank_tiles_def)
  from wf have w: "2 < width st" "2 < height st" by (simp_all add: well_formed_def)
  have obc: "on_board st (centre st)" using w by (simp add: on_board_def centre_def)
  have z: "tile_at st c = 0" if "on_board st c" for c
    using idx_less [OF that] bl by (simp add: blank_tiles_def tile_at_def)
  have "set (start_poss st) =
          {(width st div 2, height st div 2, D), (width st div 2, height st div 2, L),
           (width st div 2, height st div 2, U), (width st div 2, height st div 2, R)}"
    by (simp only: start_poss_def set_add234 newtree234_def list.set)
  then have set: "set (start_poss st) = {(fst (centre st), snd (centre st), d) | d. d \<in> set dirs}"
    by (auto simp: centre_def dirs_def R_def U_def L_def D_def)
  have so: "sorted234 (start_poss st)"
    unfolding start_poss_def newtree234_def by (intro sorted234_add234) simp
  have r: "reached st c \<longleftrightarrow> c = centre st" if "on_board st c" for c
    using z [OF that] by (simp add: reached_def)
  have noff: "\<not> off_board st (centre st) d" if "d \<in> set dirs" for d
    using dirs_cases [OF that] w by (auto simp: off_board_values centre_def)
  have nr: "\<not> reached st (neighbour st (centre st) d)" if "d \<in> set dirs" for d
    using r [OF neighbour_on_board [OF obc that]] neighbour_neq [OF obc w that] by simp
  have 1: "nibbles st" unfolding nibbles_def using z by simp
  have 2: "poss_ok st (start_poss st)"
    unfolding poss_ok_def using so set obc noff nr r [OF obc] z [OF obc] by auto
  have 3: "sym st" unfolding sym_def using z by simp
  have 4: "counts st" unfolding counts_def using z by simp
  have 5: "frontier st (start_poss st)"
    unfolding frontier_def using r set by auto
  have 6: "centre_first st (start_poss st)"
    unfolding centre_first_def using set by auto
  have "reach st (centre st)" unfolding centre_def by (rule reach_centre)
  then have 7: "connected st" unfolding connected_def using r by auto
  have 8: "ranked st (\<lambda>c. 0) 1" unfolding ranked_def using r z by auto
  show ?thesis unfolding full_inv_def grid_inv_def using wf 1 2 3 4 5 6 7 8 by blast
qed

lemma unshuffled_grid_inv:
  assumes "blank_tiles st" "unshuffled_grid ru st rs = Inr (g, rs')"
  shows "full_inv g []"
  using grid_loop_full_inv [OF start_full_inv [OF assms(1)]] assms(2)
  by (simp add: unshuffled_grid_eq)

lemma sym_symmetric_at:
  assumes sy: "sym st" and wf: "well_formed st" and c: "on_board st c" and d: "d \<in> set dirs"
  shows "symmetric_at st c d"
proof -
  from wf have w: "2 < width st" "2 < height st" by (simp_all add: well_formed_def)
  have "has_dir (tile_at st c) d = has_dir (tile_at st (neighbour st c d)) (F d)"
  proof
    assume "has_dir (tile_at st c) d"
    with sy c d show "has_dir (tile_at st (neighbour st c d)) (F d)" unfolding sym_def by blast
  next
    assume "has_dir (tile_at st (neighbour st c d)) (F d)"
    with sy neighbour_on_board [OF c d] F_in_dirs [OF d]
    have "has_dir (tile_at st (neighbour st (neighbour st c d) (F d))) (F (F d))"
      unfolding sym_def by blast
    then show "has_dir (tile_at st c) d"
      using neighbour_back [OF c w d] F_F [OF d] by simp
  qed
  then show ?thesis by (simp add: symmetric_at_def)
qed

lemma sym_symmetric:
  assumes "sym st" "well_formed st"
  shows "symmetric st"
  unfolding symmetric_def list_all_iff
  using sym_symmetric_at [OF assms] by (simp add: on_board_def)

section \<open>Symmetric connections\<close>

lemma draws_in_range_replay: "draws_in_range replay_upto"
  by (auto simp: draws_in_range_def replay_upto_def split: list.splits)

lemma new_game_turned:
  "new_game (\<lambda>seed. draws_b) replay_upto (params_3x3 True) ''123'' = Inr turned_3x3"
  by code_simp

lemma make_move_turned:
  "make_move solved_3x3 53 53 LEFT_BUTTON = Inr (Some turned_3x3)"
  by code_simp

lemma border_3x3: 
  "border_barriers (blank_state (params_3x3 False)) =
     Inr ((blank_state (params_3x3 False))\<lparr>barriers := [6, 6, 6, 0, 0, 0, 9, 9, 9]\<rparr>)"
  by code_simp

lemma grid_3x3_wrap:
  "unshuffled_grid replay_upto (blank_state (params_3x3 True)) [] = Inr (solved_3x3, [])"
  by code_simp

lemma grid_3x3:
  "unshuffled_grid replay_upto
     ((blank_state (params_3x3 False))\<lparr>barriers := [6, 6, 6, 0, 0, 0, 9, 9, 9]\<rparr>) [] =
     Inr (unshuffled_3x3, [])"
  by code_simp

text \<open>
  C2 (as stated): in the state returned by \<open>new_game\<close> and in the state returned by a
  successful rotation, connections are symmetric pairs. The state below is returned by
  \<open>new_game\<close> when the shuffle turns the centre tile once, and by \<open>make_move\<close> when the
  player turns the centre tile of the solved board; its centre points down at a tile that
  does not point up.
\<close>

theorem rotation_breaks_symmetry:
  "new_game (\<lambda>seed. draws_b) replay_upto (params_3x3 True) ''123'' = Inr turned_3x3 \<and>
   symmetric solved_3x3 \<and>
   make_move solved_3x3 53 53 LEFT_BUTTON = Inr (Some turned_3x3) \<and>
   \<not> symmetric turned_3x3"
proof -
  have "symmetric solved_3x3" by code_simp
  moreover have "\<not> symmetric turned_3x3" by code_simp
  ultimately show ?thesis using new_game_turned make_move_turned by simp
qed

text \<open>
  C2 (amended): in the grid that \<open>new_game\<close> has built when the loop over the possibilities
  ends, before the shuffle, connections are symmetric pairs: for two adjacent cells, the one
  contains the direction to the other if and only if the other contains the reflected
  direction.
\<close>

theorem unshuffled_grid_symmetric:
  assumes "2 < p_width params" "2 < p_height params"
    and "border_barriers (blank_state params) = Inr st1"
    and "unshuffled_grid random_upto st1 rs = Inr (g, rs')"
  shows "symmetric g"
proof -
  have "blank_tiles st1" using assms(1-3) by (rule blank_after_border)
  then have "full_inv g []" using assms(4) by (rule unshuffled_grid_inv)
  then have "sym g" "well_formed g" by (simp_all add: full_inv_def grid_inv_def)
  then show ?thesis by (rule sym_symmetric)
qed

theorem unshuffled_grid_symmetric_witness:
  "2 < p_width (params_3x3 False) \<and> 2 < p_height (params_3x3 False) \<and>
   border_barriers (blank_state (params_3x3 False)) =
     Inr ((blank_state (params_3x3 False))\<lparr>barriers := [6, 6, 6, 0, 0, 0, 9, 9, 9]\<rparr>) \<and>
   unshuffled_grid replay_upto
     ((blank_state (params_3x3 False))\<lparr>barriers := [6, 6, 6, 0, 0, 0, 9, 9, 9]\<rparr>) [] =
     Inr (unshuffled_3x3, []) \<and>
   symmetric unshuffled_3x3"
proof -
  have w: "2 < p_width (params_3x3 False)" "2 < p_height (params_3x3 False)"
    by (simp_all add: params_3x3_def)
  from unshuffled_grid_symmetric [OF w border_3x3 grid_3x3] w border_3x3 grid_3x3
  show ?thesis by simp
qed

section \<open>Every cell is reached\<close>

lemma reach_closed:
  assumes "reach st c"
    and "(width st div 2, height st div 2) \<in> set cs"
    and "list_all (\<lambda>c. list_all (\<lambda>d.
           \<not> (has_dir (tile_at st c) d \<and> has_dir (tile_at st (neighbour st c d)) (F d)) \<or>
           neighbour st c d \<in> set cs) dirs) cs"
  shows "c \<in> set cs"
  using assms
proof (induction rule: reach.induct)
  case reach_centre
  then show ?case by simp
next
  case (reach_step c d)
  then have "c \<in> set cs" by simp
  with reach_step.prems(2) reach_step.hyps(2) have
    "\<not> (has_dir (tile_at st c) d \<and> has_dir (tile_at st (neighbour st c d)) (F d)) \<or>
           neighbour st c d \<in> set cs"
    unfolding list_all_iff by blast
  with reach_step.hyps show ?case by simp
qed

text \<open>
  C1 (as stated): in the state returned by \<open>new_game\<close> every cell is reachable from the
  centre. In the state below, returned when the shuffle turns the centre tile once, the
  cell (2,1) points left at the centre, which no longer points right: the cell is not
  reachable.
\<close>

theorem shuffled_grid_unreachable:
  "new_game (\<lambda>seed. draws_b) replay_upto (params_3x3 True) ''123'' = Inr turned_3x3 \<and>
   on_board turned_3x3 (2, 1) \<and> \<not> reach turned_3x3 (2, 1)"
proof -
  have "\<not> reach turned_3x3 (2, 1)"
  proof
    assume r: "reach turned_3x3 (2, 1)"
    have c: "(width turned_3x3 div 2, height turned_3x3 div 2) \<in>
               set [(0, 0), (1, 0), (2, 0), (0, 1), (1, 1), (0, 2), (1, 2), (2, 2)]"
      by code_simp
    have s: "list_all (\<lambda>c. list_all (\<lambda>d.
           \<not> (has_dir (tile_at turned_3x3 c) d \<and>
              has_dir (tile_at turned_3x3 (neighbour turned_3x3 c d)) (F d)) \<or>
           neighbour turned_3x3 c d \<in> set [(0, 0), (1, 0), (2, 0), (0, 1), (1, 1), (0, 2), (1, 2), (2, 2)]) dirs)
           [(0, 0), (1, 0), (2, 0), (0, 1), (1, 1), (0, 2), (1, 2), (2, 2)]"
      by code_simp
    from reach_closed [OF r c s] show False by simp
  qed
  moreover have "on_board turned_3x3 (2, 1)" by (simp add: on_board_def turned_3x3_def)
  ultimately show ?thesis using new_game_turned by simp
qed

text \<open>
  C1 (amended): on a board with width and height above 2 and with
  \<open>4 * width * height\<close> at most \<open>INT_MAX\<close> (so that neither the cell indices nor the
  count of the possibilities, at most four for each cell, overflow an \<open>int\<close>), with every
  tile zero (as \<open>new_game\<close> clears them) and a generator whose draws are below their
  limits, the loop over the possibilities returns a grid of the same width and height: it
  fails no assertion and stays inside the tiles array. In that grid, the one \<open>new_game\<close>
  then shuffles, every cell of the board is reachable from the centre by the flood fill over
  symmetric connections that ignores barriers.
\<close>

theorem unshuffled_grid_connected:
  assumes "2 < width st" "2 < height st"
    and "4 * (width st * height st) \<le> INT_MAX"
    and "tiles st = replicate (width st * height st) 0"
    and "draws_in_range random_upto"
  shows "\<exists>g rs'. unshuffled_grid random_upto st rs = Inr (g, rs') \<and>
           width g = width st \<and> height g = height st \<and>
           (\<forall>c. on_board g c \<longrightarrow> reach g c)"
proof -
  have bl: "blank_tiles st" using assms(1,2,4) by (simp add: blank_tiles_def well_formed_def)
  note st = start_full_inv [OF bl]
  from grid_loop_returns [OF st assms(5)]
  obtain g rs' where g: "unshuffled_grid random_upto st rs = Inr (g, rs')"
    unfolding unshuffled_grid_eq by (metis surj_pair)
  from st have "grid_inv st (start_poss st)" by (simp add: full_inv_def)
  from grid_loop_fields [OF this g [unfolded unshuffled_grid_eq]]
  have f: "width g = width st \<and> height g = height st" by simp
  from bl g have fi: "full_inv g []" by (rule unshuffled_grid_inv)
  then obtain rk n where inv: "grid_inv g []" and rk: "ranked g rk n"
    unfolding full_inv_def by blast
  from inv have co: "connected g" by (simp add: grid_inv_def)
  have "reach g c" if "on_board g c" for c
  proof -
    have "reached g c" using inv rk that by (rule all_reached)
    with co that show ?thesis unfolding connected_def by blast
  qed
  with g f show ?thesis by blast
qed

theorem unshuffled_grid_connected_witness:
  "2 < width (blank_state (params_3x3 True)) \<and> 2 < height (blank_state (params_3x3 True)) \<and>
   4 * (width (blank_state (params_3x3 True)) * height (blank_state (params_3x3 True))) \<le> INT_MAX \<and>
   tiles (blank_state (params_3x3 True)) =
     replicate (width (blank_state (params_3x3 True)) * height (blank_state (params_3x3 True))) 0 \<and>
   draws_in_range replay_upto \<and>
   unshuffled_grid replay_upto (blank_state (params_3x3 True)) [] = Inr (solved_3x3, []) \<and>
   on_board solved_3x3 (0, 0) \<and> reach solved_3x3 (0, 0)"
proof -
  have h: "2 < width (blank_state (params_3x3 True))" "2 < height (blank_state (params_3x3 True))"
    "4 * (width (blank_state (params_3x3 True)) * height (blank_state (params_3x3 True))) \<le> INT_MAX"
    "tiles (blank_state (params_3x3 True)) =
       replicate (width (blank_state (params_3x3 True)) * height (blank_state (params_3x3 True))) 0"
    by (simp_all add: blank_state_def params_3x3_def INT_MAX_def)
  have ob: "on_board solved_3x3 (0, 0)" by (simp add: on_board_def solved_3x3_def)
  from unshuffled_grid_connected [OF h draws_in_range_replay, of "[]"]
  have "reach solved_3x3 (0, 0)" using grid_3x3_wrap ob by auto
  with h draws_in_range_replay grid_3x3_wrap ob show ?thesis by simp
qed

section \<open>No full crosses\<close>

lemma tiles_counts:
  assumes "full_inv g []" "t \<in> set (tiles g)"
  shows "COUNT t \<le> 3"
proof -
  from assms(1) have wf: "well_formed g" and cn: "counts g" by (simp_all add: full_inv_def grid_inv_def)
  from wf have w: "0 < width g" and len: "length (tiles g) = width g * height g"
    by (simp_all add: well_formed_def)
  from assms(2) obtain i where i: "i < length (tiles g)" "tiles g ! i = t"
    by (auto simp: in_set_conv_nth)
  let ?c = "(i mod width g, i div width g)"
  have "i div width g < height g" using i(1) len by (simp add: less_mult_imp_div_less mult.commute)
  then have ob: "on_board g ?c" using w by (simp add: on_board_def)
  have "tile_at g ?c = t" using i(2) by (simp add: tile_at_def)
  with cn ob show ?thesis unfolding counts_def by blast
qed

lemma shuffle_x_loop_counts:
  "shuffle_x_loop ru st y xs rs = Inr (st', rs') \<Longrightarrow> \<forall>t \<in> set (tiles st). COUNT t \<le> 3 \<Longrightarrow>
     \<forall>t \<in> set (tiles st'). COUNT t \<le> 3"
proof (induction xs arbitrary: st rs)
  case Nil
  then show ?case by simp
next
  case (Cons x xs)
  obtain rot rs1 where ru: "ru rs 4 = (rot, rs1)" by (cases "ru rs 4")
  from Cons.prems(1) ru obtain orig st1 where
    o: "tile st x y = Inr orig" and s: "set_tile st x y (ROT orig rot) = Inr st1"
    and l: "shuffle_x_loop ru st1 y xs rs1 = Inr (st', rs')"
    by (auto simp: ebind_Inr)
  from o have oi: "y * width st + x < length (tiles st)" "orig = tiles st ! (y * width st + x)"
    by (simp_all add: tile_Inr)
  then have "orig \<in> set (tiles st)" by simp
  with Cons.prems(2) have "COUNT (ROT orig rot) \<le> 3" by (simp add: COUNT_ROT)
  moreover from s oi have "tiles st1 = (tiles st)[y * width st + x := ROT orig rot]"
    by (auto simp: set_tile_def index_wr_def)
  ultimately have "\<forall>t \<in> set (tiles st1). COUNT t \<le> 3"
    using Cons.prems(2) set_update_subset_insert [of "tiles st" "y * width st + x" "ROT orig rot"]
    by auto
  with l show ?case by (rule Cons.IH)
qed

lemma shuffle_y_loop_counts:
  "shuffle_y_loop ru st ys rs = Inr (st', rs') \<Longrightarrow> \<forall>t \<in> set (tiles st). COUNT t \<le> 3 \<Longrightarrow>
     \<forall>t \<in> set (tiles st'). COUNT t \<le> 3"
proof (induction ys arbitrary: st rs)
  case Nil
  then show ?case by simp
next
  case (Cons y ys)
  from Cons.prems(1) obtain st1 rs1 where
    x: "shuffle_x_loop ru st y [0..<inner_width st] rs = Inr (st1, rs1)"
    and l: "shuffle_y_loop ru st1 ys rs1 = Inr (st', rs')"
    by (auto simp: ebind_Inr)
  from shuffle_x_loop_counts [OF x Cons.prems(2)] l show ?case by (intro Cons.IH)
qed

lemma new_game_InrE:
  assumes "new_game random_init random_upto params seed = Inr st"
  obtains sb g cands sh r where
    "p_width params > 2" "p_height params > 2"
    "border_barriers (blank_state params) = Inr sb"
    "unshuffled_grid random_upto sb (random_init seed) = Inr g"
    "shuffle random_upto (fst g) (snd g) = Inr sh"
    "barrier_loop random_upto
       (nat (float_to_int (barrier_probability params * of_nat (count234 cands))))
       (fst sh) cands (snd sh) = Inr r"
    "st = fst r"
proof -
  from assms have w: "p_width params > 2" "p_height params > 2"
    by (auto simp: new_game_def split: if_splits)
  from assms w obtain sb g cands sh r where
    "border_barriers (blank_state params) = Inr sb"
    "unshuffled_grid random_upto sb (random_init seed) = Inr g"
    "shuffle random_upto (fst g) (snd g) = Inr sh"
    "barrier_loop random_upto
       (nat (float_to_int (barrier_probability params * of_nat (count234 cands))))
       (fst sh) cands (snd sh) = Inr r"
    "st = fst r"
    by (auto simp: new_game_def ebind_Inr Let_def split: if_splits)
  with w show thesis by (rule that)
qed

text \<open>
  C8: For parameters with width and height above 2 and any seed string, no tile of the
  state returned by \<open>new_game\<close> has all four direction bits set.
\<close>

theorem no_cross_tiles:
  assumes "new_game random_init random_upto params seed = Inr st" "t \<in> set (tiles st)"
  shows "t AND 0x0F \<noteq> 0x0F"
proof -
  from assms(1) obtain sb g cands sh r where
    w: "p_width params > 2" "p_height params > 2" and
    b: "border_barriers (blank_state params) = Inr sb" and
    g: "unshuffled_grid random_upto sb (random_init seed) = Inr g" and
    s: "shuffle random_upto (fst g) (snd g) = Inr sh" and
    l: "barrier_loop random_upto
          (nat (float_to_int (barrier_probability params * of_nat (count234 cands))))
          (fst sh) cands (snd sh) = Inr r" and
    r: "st = fst r"
    by (rule new_game_InrE)
  have "blank_tiles sb" using w b by (rule blank_after_border)
  moreover have "unshuffled_grid random_upto sb (random_init seed) = Inr (fst g, snd g)"
    using g by simp
  ultimately have "full_inv (fst g) []" by (rule unshuffled_grid_inv)
  then have tc: "\<forall>t \<in> set (tiles (fst g)). COUNT t \<le> 3" using tiles_counts by blast
  have "shuffle_y_loop random_upto (fst g) [0..<inner_height (fst g)] (snd g) = Inr (fst sh, snd sh)"
    using s by (simp add: shuffle_def)
  then have "\<forall>t \<in> set (tiles (fst sh)). COUNT t \<le> 3" using tc by (rule shuffle_y_loop_counts)
  moreover have "tiles (fst r) = tiles (fst sh)"
  proof -
    obtain s2 b2 g2 where r': "r = (s2, b2, g2)" by (cases r)
    from barrier_loop_subset [OF l [unfolded r']] show ?thesis by (simp add: r')
  qed
  ultimately have "COUNT t \<le> 3" using assms(2) r by simp
  then show ?thesis by (simp add: COUNT_le_3)
qed

theorem no_cross_tiles_witness:
  "new_game (\<lambda>seed. draws_a) replay_upto params_fifth ''123'' =
     Inr \<lparr>width = 3, height = 3, wrapping = True, completed = False,
          tiles = [13, 10, 8, 12, 7, 4, 9, 1, 4],
          barriers = [0, 1, 4, 4, 0, 1, 0, 0, 0]\<rparr> \<and>
   (13 :: u8) AND 0x0F \<noteq> 0x0F"
  using no_cross_tiles [OF barrier_run_fifth, of 13] barrier_run_fifth by simp

section \<open>Determinism of new_game\<close>












lemma new_game_3x3_zero_draws:
  "new_game (\<lambda>seed. []) replay_upto (params_3x3 True) ''123'' = Inr solved_3x3"
  by code_simp






end
